theory Spec2Isabelle
  imports Complex_Main "HOL-Library.Char_ord" "HOL-Library.List_Lexorder"
begin

section \<open>Values, errors and outcomes\<close>

text \<open>
  A Go \<^verbatim>\<open>string\<close> is a sequence of bytes, which is what \<^typ>\<open>string\<close> is here
  (a \<^typ>\<open>char\<close> is one byte). Go compares strings byte by byte, lexicographically:
  that is the order of \<^typ>\<open>char list\<close> under \<open>Char_ord\<close> and \<open>List_Lexorder\<close>.
  A \<^verbatim>\<open>rune\<close> is a code point, a natural number here.

  A \<^verbatim>\<open>float64\<close> is modelled twice. In the model of the whole pipeline it is a real
  number: rounding, underflow and overflow are not part of that model, and an operation
  whose IEEE result is not a finite number (division by zero, logarithm of a number that
  is not positive, square root of a negative number) ends the modelled run with
  \<open>NonFinite\<close>, so that the guards of the source are visible. For the claims that depend
  on what rounding and the infinities do, the similarity and the row normalizations are
  modelled a second time on \<open>f64\<close>, binary64 with its rounding, its infinities and NaN
  (section \<open>float64 with rounding\<close>). A slice index out of range ends a run with
  \<open>IndexPanic\<close>.
\<close>

type_synonym rune = nat

datatype error =
    EmptyInput      \<comment> \<open>\<^verbatim>\<open>errors.New("empty TF matrix")\<close>\<close>
  | ShapeMismatch   \<comment> \<open>\<^verbatim>\<open>errors.New("TF matrix and IDF vector dimensions don't match")\<close>\<close>
  | InvalidConfig   \<comment> \<open>\<^verbatim>\<open>errors.New("invalid normalization level")\<close>\<close>
  | InvalidPattern  \<comment> \<open>the error of a pattern-based tokenizer behind the interface\<close>

datatype 'a outcome = IndexPanic | NonFinite | Returns 'a

definition and_then :: "'a outcome \<Rightarrow> ('a \<Rightarrow> 'b outcome) \<Rightarrow> 'b outcome" where
  "and_then m f = (case m of IndexPanic \<Rightarrow> IndexPanic | NonFinite \<Rightarrow> NonFinite | Returns x \<Rightarrow> f x)"

text \<open>A \<^verbatim>\<open>for\<close> loop that fills a slice element by element, in order.\<close>

fun for_each :: "('a \<Rightarrow> 'b outcome) \<Rightarrow> 'a list \<Rightarrow> 'b list outcome" where
  "for_each f [] = Returns []"
| "for_each f (x # xs) =
     and_then (f x) (\<lambda>y. and_then (for_each f xs) (\<lambda>ys. Returns (y # ys)))"

definition fdiv :: "real \<Rightarrow> real \<Rightarrow> real outcome" where
  "fdiv x y = (if y = 0 then NonFinite else Returns (x / y))"

definition flog :: "real \<Rightarrow> real outcome" where
  "flog x = (if x \<le> 0 then NonFinite else Returns (ln x))"

definition fsqrt :: "real \<Rightarrow> real outcome" where
  "fsqrt x = (if x < 0 then NonFinite else Returns (sqrt x))"

section \<open>Package token: the scanning tokenizer\<close>

subsection \<open>\<^verbatim>\<open>for i, r := range doc\<close>\<close>

text \<open>
  Ranging over a string decodes UTF-8: each step yields the byte offset of a code point
  and the code point. A byte sequence that is not a well-formed encoding yields
  \<^verbatim>\<open>U+FFFD\<close> and advances by one byte. The bounds of the second byte are those of
  the language's decoder (no overlong forms, no surrogates, nothing above
  \<^verbatim>\<open>U+10FFFF\<close>).
\<close>

definition RuneError :: rune where
  "RuneError = 0xFFFD"

definition second_lo :: "nat \<Rightarrow> nat" where
  "second_lo b0 = (if b0 = 0xE0 then 0xA0 else if b0 = 0xF0 then 0x90 else 0x80)"

definition second_hi :: "nat \<Rightarrow> nat" where
  "second_hi b0 = (if b0 = 0xED then 0x9F else if b0 = 0xF4 then 0x8F else 0xBF)"

definition continuation :: "nat \<Rightarrow> bool" where
  "continuation b \<longleftrightarrow> 0x80 \<le> b \<and> b \<le> 0xBF"

fun decodeRune :: "string \<Rightarrow> rune \<times> nat" where
  "decodeRune [] = (RuneError, 0)"
| "decodeRune (c0 # cs) =
     (let b0 = (of_char c0 :: nat) in
      if b0 < 0x80 then (b0, 1)
      else if 0xC2 \<le> b0 \<and> b0 \<le> 0xDF then
        (case cs of
           c1 # _ \<Rightarrow>
             (let b1 = (of_char c1 :: nat) in
              if continuation b1 then ((b0 - 0xC0) * 64 + (b1 - 0x80), 2)
              else (RuneError, 1))
         | _ \<Rightarrow> (RuneError, 1))
      else if 0xE0 \<le> b0 \<and> b0 \<le> 0xEF then
        (case cs of
           c1 # c2 # _ \<Rightarrow>
             (let b1 = (of_char c1 :: nat); b2 = (of_char c2 :: nat) in
              if second_lo b0 \<le> b1 \<and> b1 \<le> second_hi b0 \<and> continuation b2
              then ((b0 - 0xE0) * 4096 + (b1 - 0x80) * 64 + (b2 - 0x80), 3)
              else (RuneError, 1))
         | _ \<Rightarrow> (RuneError, 1))
      else if 0xF0 \<le> b0 \<and> b0 \<le> 0xF4 then
        (case cs of
           c1 # c2 # c3 # _ \<Rightarrow>
             (let b1 = (of_char c1 :: nat); b2 = (of_char c2 :: nat);
                  b3 = (of_char c3 :: nat) in
              if second_lo b0 \<le> b1 \<and> b1 \<le> second_hi b0 \<and> continuation b2
                 \<and> continuation b3
              then ((b0 - 0xF0) * 262144 + (b1 - 0x80) * 4096 + (b2 - 0x80) * 64
                    + (b3 - 0x80), 4)
              else (RuneError, 1))
         | _ \<Rightarrow> (RuneError, 1))
      else (RuneError, 1))"

fun rangeString :: "nat \<Rightarrow> string \<Rightarrow> (nat \<times> rune) list" where
  "rangeString i [] = []"
| "rangeString i (c # cs) =
     (i, fst (decodeRune (c # cs)))
       # rangeString (i + snd (decodeRune (c # cs))) (drop (snd (decodeRune (c # cs)) - 1) cs)"

text \<open>The number of code points of a string, \<^verbatim>\<open>utf8.RuneCountInString\<close>.\<close>

definition runeCount :: "string \<Rightarrow> nat" where
  "runeCount s = length (rangeString 0 s)"

subsection \<open>The tokenizer\<close>

record Tokenizer =
  normalizeFunc :: "(string \<Rightarrow> string) option"

text \<open>\<^verbatim>\<open>doc[lo:hi]\<close> for offsets \<open>0 \<le> lo \<le> hi \<le> len(doc)\<close>, which is all the scanner asks for.\<close>

definition slice :: "string \<Rightarrow> int \<Rightarrow> int \<Rightarrow> string" where
  "slice doc lo hi = take (nat (hi - lo)) (drop (nat lo) doc)"

definition Tokenizer_doNormalize :: "Tokenizer \<Rightarrow> string \<Rightarrow> string" where
  "Tokenizer_doNormalize t token =
     (case normalizeFunc t of Some f \<Rightarrow> f token | None \<Rightarrow> token)"

text \<open>
  One turn of the loop of \<^verbatim>\<open>tokenize\<close> on the state \<open>(tokens, start)\<close>. The
  table behind \<^verbatim>\<open>unicode.IsLetter\<close> belongs to the standard library and is the
  parameter \<open>isLetter\<close>.
\<close>

definition scan_step ::
  "(rune \<Rightarrow> bool) \<Rightarrow> Tokenizer \<Rightarrow> string \<Rightarrow> nat \<times> rune \<Rightarrow> string list \<times> int \<Rightarrow> string list \<times> int"
where
  "scan_step isLetter t doc ir st =
     (case ir of (i, r) \<Rightarrow> case st of (tokens, start) \<Rightarrow>
        if isLetter r then (if start = -1 then (tokens, int i) else (tokens, start))
        else if start \<noteq> -1 \<and> int i - start > 1
          then (tokens @ [Tokenizer_doNormalize t (slice doc start (int i))], -1)
          else (tokens, -1))"

definition tokenize :: "(rune \<Rightarrow> bool) \<Rightarrow> Tokenizer \<Rightarrow> string \<Rightarrow> string list" where
  "tokenize isLetter t doc =
     (case fold (scan_step isLetter t doc) (rangeString 0 doc) ([], -1) of
        (tokens, start) \<Rightarrow>
          if start \<noteq> -1 \<and> int (length doc) - start > 1
          then tokens @ [Tokenizer_doNormalize t (slice doc start (int (length doc)))]
          else tokens)"

definition vocabulary_step ::
  "string \<Rightarrow> (string \<rightharpoonup> unit) \<times> string list \<Rightarrow> (string \<rightharpoonup> unit) \<times> string list"
where
  "vocabulary_step token st =
     (case st of (termsMap, terms) \<Rightarrow>
        if termsMap token \<noteq> None then (termsMap, terms)
        else (termsMap(token \<mapsto> ()), terms @ [token]))"

definition vocabulary :: "string list list \<Rightarrow> string list" where
  "vocabulary tokens =
     (case fold (\<lambda>doc st. fold vocabulary_step doc st) tokens (Map.empty, []) of
        (termsMap, terms) \<Rightarrow> sort terms)"

definition Tokenize ::
  "(rune \<Rightarrow> bool) \<Rightarrow> Tokenizer \<Rightarrow> string list \<Rightarrow> string list \<times> string list list \<times> error option"
where
  "Tokenize isLetter t documents =
     (let tokens =
        map (\<lambda>doc. let tkns = tokenize isLetter t doc in
                    (case normalizeFunc t of Some f \<Rightarrow> map f tkns | None \<Rightarrow> tkns))
            documents
      in (vocabulary tokens, tokens, None))"

section \<open>Package tfidf\<close>

subsection \<open>Term frequency\<close>

definition countTerms :: "string list \<Rightarrow> (string \<rightharpoonup> nat)" where
  "countTerms tokensRow =
     fold (\<lambda>term termsMap.
             termsMap(term \<mapsto> (case termsMap term of None \<Rightarrow> 0 | Some n \<Rightarrow> n) + 1))
          tokensRow Map.empty"

definition Tf :: "string list \<Rightarrow> string list list \<Rightarrow> real list list" where
  "Tf vocab tokens =
     map (\<lambda>tokensRow.
            let termsMap = countTerms tokensRow in
            map (\<lambda>token. case termsMap token of Some val \<Rightarrow> real val | None \<Rightarrow> 0) vocab)
         tokens"

subsection \<open>Inverse document frequency\<close>

definition docMap :: "string list \<Rightarrow> (string \<rightharpoonup> unit)" where
  "docMap doc = fold (\<lambda>token m. m(token \<mapsto> ())) doc Map.empty"

definition docCount :: "(string \<rightharpoonup> unit) list \<Rightarrow> string \<Rightarrow> nat" where
  "docCount docMaps term =
     fold (\<lambda>m n. if m term \<noteq> None then n + 1 else n) docMaps 0"

definition Idf :: "string list \<Rightarrow> string list list \<Rightarrow> bool \<Rightarrow> real list outcome" where
  "Idf vocab tokens smoothing =
     (let total = length tokens in
      if total = 0 then Returns (map (\<lambda>_. 1) vocab)
      else
        let docMaps = map docMap tokens in
        for_each
          (\<lambda>term.
             let n = docCount docMaps term in
             if smoothing then
               and_then (fdiv (real (total + 1)) (real (n + 1)))
                 (\<lambda>q. and_then (flog q) (\<lambda>l. Returns (l + 1)))
             else if n = 0 then
               and_then (flog (real total)) (\<lambda>l. Returns (l + 1))
             else
               and_then (fdiv (real total) (real n))
                 (\<lambda>q. and_then (flog q) (\<lambda>l. Returns (l + 1))))
          vocab)"

subsection \<open>The vectorizer\<close>

text \<open>\<^verbatim>\<open>type NLevel int\<close> with the constants of the \<^verbatim>\<open>iota\<close> block.\<close>

type_synonym NLevel = int

definition NoNorm :: NLevel where "NoNorm = 0"
definition L1Norm :: NLevel where "L1Norm = 1"
definition L2Norm :: NLevel where "L2Norm = 2"

record TfIdfVectorizer =
  NormLevel :: NLevel

definition NewTfIdfVectorizer :: TfIdfVectorizer where
  "NewTfIdfVectorizer = \<lparr>NormLevel = L2Norm\<rparr>"

text \<open>The first loop of \<^verbatim>\<open>l1Normalize\<close> and of \<^verbatim>\<open>l2Normalize\<close>.\<close>

definition sumAbs :: "real list \<Rightarrow> real" where
  "sumAbs vec = fold (\<lambda>val norm. norm + \<bar>val\<bar>) vec 0"

definition sumSquares :: "real list \<Rightarrow> real" where
  "sumSquares vec = fold (\<lambda>val norm. norm + val * val) vec 0"

definition l1Normalize :: "real list \<Rightarrow> real list outcome" where
  "l1Normalize vec =
     (let norm = sumAbs vec in
      if norm = 0 then Returns vec
      else for_each (\<lambda>v. fdiv v norm) vec)"

definition l2Normalize :: "real list \<Rightarrow> real list outcome" where
  "l2Normalize vec =
     and_then (fsqrt (sumSquares vec))
       (\<lambda>norm. if norm = 0 then Returns vec
               else for_each (\<lambda>v. fdiv v norm) vec)"

text \<open>A returned pair \<open>(vec, err)\<close>; the \<^verbatim>\<open>nil\<close> slice is the empty list.\<close>

definition doNormalize :: "TfIdfVectorizer \<Rightarrow> real list \<Rightarrow> (real list \<times> error option) outcome" where
  "doNormalize t vec =
     (if NormLevel t = L1Norm then and_then (l1Normalize vec) (\<lambda>v. Returns (v, None))
      else if NormLevel t = L2Norm then and_then (l2Normalize vec) (\<lambda>v. Returns (v, None))
      else if NormLevel t = NoNorm then Returns (vec, None)
      else Returns ([], Some InvalidConfig))"

text \<open>The inner loop of \<^verbatim>\<open>TfIdf\<close>: \<open>js\<close> are the indices of the allocated row.\<close>

fun weigh :: "real list \<Rightarrow> real list \<Rightarrow> nat list \<Rightarrow> real list outcome" where
  "weigh tfRow idfVec [] = Returns []"
| "weigh tfRow idfVec (j # js) =
     (if j < length tfRow \<and> j < length idfVec
      then and_then (weigh tfRow idfVec js) (\<lambda>r. Returns (tfRow ! j * idfVec ! j # r))
      else IndexPanic)"

text \<open>The outer loop: \<open>width\<close> is \<^verbatim>\<open>len(tfVec[0])\<close>, the length of every allocated row.\<close>

fun tfIdfRows ::
  "TfIdfVectorizer \<Rightarrow> nat \<Rightarrow> real list list \<Rightarrow> real list \<Rightarrow> (real list list \<times> error option) outcome"
where
  "tfIdfRows t width [] idfVec = Returns ([], None)"
| "tfIdfRows t width (tfRow # rest) idfVec =
     and_then (weigh tfRow idfVec [0..<width])
       (\<lambda>w. and_then (doNormalize t w)
          (\<lambda>(v, err). case err of
               Some e \<Rightarrow> Returns ([], Some e)
             | None \<Rightarrow>
                 and_then (tfIdfRows t width rest idfVec)
                   (\<lambda>(m, err'). case err' of
                        Some e \<Rightarrow> Returns ([], Some e)
                      | None \<Rightarrow> Returns (v # m, None))))"

definition TfIdf ::
  "TfIdfVectorizer \<Rightarrow> real list list \<Rightarrow> real list \<Rightarrow> (real list list \<times> error option) outcome"
where
  "TfIdf t tfVec idfVec =
     (if length tfVec = 0 then Returns ([], Some EmptyInput)
      else if length (tfVec ! 0) \<noteq> length idfVec then Returns ([], Some ShapeMismatch)
      else tfIdfRows t (length (tfVec ! 0)) tfVec idfVec)"

section \<open>Package similarity\<close>

fun cosineSums ::
  "real list \<Rightarrow> real list \<Rightarrow> nat list \<Rightarrow> real \<times> real \<times> real \<Rightarrow> (real \<times> real \<times> real) outcome"
where
  "cosineSums vec1 vec2 [] acc = Returns acc"
| "cosineSums vec1 vec2 (i # is) acc =
     (case acc of (dot, normA, normB) \<Rightarrow>
        if i < length vec2
        then cosineSums vec1 vec2 is
               (dot + vec1 ! i * vec2 ! i, normA + vec1 ! i * vec1 ! i, normB + vec2 ! i * vec2 ! i)
        else IndexPanic)"

definition cosineSimilarity :: "real list \<Rightarrow> real list \<Rightarrow> real outcome" where
  "cosineSimilarity vec1 vec2 =
     and_then (cosineSums vec1 vec2 [0..<length vec1] (0, 0, 0))
       (\<lambda>(dot, normA, normB).
          if normA = 0 \<or> normB = 0 then Returns 0
          else and_then (fsqrt normA)
                 (\<lambda>a. and_then (fsqrt normB) (\<lambda>b. fdiv dot (a * b))))"

text \<open>The two interfaces of the engine, as the functions behind them.\<close>

record CosineSimilarity =
  tokenizer :: "string list \<Rightarrow> string list \<times> string list list \<times> error option"
  vectorizer :: "real list list \<Rightarrow> real list \<Rightarrow> (real list list \<times> error option) outcome"

definition NewCosineSimilarity ::
  "(string list \<Rightarrow> string list \<times> string list list \<times> error option)
   \<Rightarrow> (real list list \<Rightarrow> real list \<Rightarrow> (real list list \<times> error option) outcome)
   \<Rightarrow> CosineSimilarity"
where
  "NewCosineSimilarity tk vz = \<lparr>tokenizer = tk, vectorizer = vz\<rparr>"

text \<open>
  The last loop of \<^verbatim>\<open>Do\<close>: \<open>scores\<close> has one slot per document, and slot \<open>i\<close> takes
  the similarity of \<^verbatim>\<open>tfIdf[0]\<close> with the \<open>i\<close>-th document vector.
\<close>

fun scoreLoop :: "real list list \<Rightarrow> nat \<Rightarrow> (nat \<times> real list) list \<Rightarrow> real list \<Rightarrow> real list outcome" where
  "scoreLoop tfIdf n [] scores = Returns scores"
| "scoreLoop tfIdf n ((i, vec) # rest) scores =
     (if tfIdf = [] \<or> n \<le> i then IndexPanic
      else and_then (cosineSimilarity (tfIdf ! 0) vec)
             (\<lambda>s. scoreLoop tfIdf n rest (scores[i := s])))"

definition Do :: "CosineSimilarity \<Rightarrow> string \<Rightarrow> string list \<Rightarrow> (real list \<times> error option) outcome" where
  "Do c input documents =
     (case tokenizer c documents of
        (vocab, tokens, Some e) \<Rightarrow> Returns ([], Some e)
      | (vocab, tokens, None) \<Rightarrow>
          (let tfVec = Tf vocab tokens in
           and_then (Idf vocab tokens True)
             (\<lambda>idfVec. and_then (vectorizer c tfVec idfVec)
                (\<lambda>(tfIdfVec, err). case err of
                     Some e \<Rightarrow> Returns ([], Some e)
                   | None \<Rightarrow>
                       (case tokenizer c [input] of
                          (_, queryTokens, Some e) \<Rightarrow> Returns ([], Some e)
                        | (_, queryTokens, None) \<Rightarrow>
                            (let tf = Tf vocab queryTokens in
                             and_then (vectorizer c tf idfVec)
                               (\<lambda>(tfIdf, err'). case err' of
                                    Some e \<Rightarrow> Returns ([], Some e)
                                  | None \<Rightarrow>
                                      and_then
                                        (scoreLoop tfIdf (length documents)
                                           (zip [0..<length tfIdfVec] tfIdfVec)
                                           (replicate (length documents) 0))
                                        (\<lambda>scores. Returns (scores, None)))))))))"

section \<open>Auxiliary definitions\<close>

text \<open>
  The document frequency in the words of the specification: the number of documents that
  contain the term at least once. The source computes it as \<open>docCount\<close> over the
  per-document maps \<open>docMap\<close>.
\<close>

definition df :: "string \<Rightarrow> string list list \<Rightarrow> nat" where
  "df t tokens = length (filter (\<lambda>doc. t \<in> set doc) tokens)"

text \<open>
  The weight of a term in the words of the specification, for \<open>N\<close> documents of which
  \<open>d\<close> contain the term.
\<close>

definition idf_weight :: "nat \<Rightarrow> nat \<Rightarrow> bool \<Rightarrow> real" where
  "idf_weight N d smoothing =
     (if N = 0 then 1
      else if smoothing then ln (real (N + 1) / real (d + 1)) + 1
      else if d = 0 then ln (real N) + 1
      else ln (real N / real d) + 1)"

definition validLevel :: "TfIdfVectorizer \<Rightarrow> bool" where
  "validLevel t \<longleftrightarrow> NormLevel t = NoNorm \<or> NormLevel t = L1Norm \<or> NormLevel t = L2Norm"

text \<open>
  Instances of the two standard-library parameters, for running the model on concrete
  documents. \<open>isLetterLatin1\<close> is \<^verbatim>\<open>unicode.IsLetter\<close> on \<^verbatim>\<open>U+0000\<close> to
  \<^verbatim>\<open>U+00FF\<close> and rejects every other code point; \<open>toLowerASCII\<close> is
  \<^verbatim>\<open>strings.ToLower\<close> on strings of ASCII bytes and leaves other bytes alone.
\<close>

definition isLetterLatin1 :: "rune \<Rightarrow> bool" where
  "isLetterLatin1 r \<longleftrightarrow>
     (0x41 \<le> r \<and> r \<le> 0x5A) \<or> (0x61 \<le> r \<and> r \<le> 0x7A) \<or> r = 0xAA \<or> r = 0xB5 \<or> r = 0xBA
     \<or> (0xC0 \<le> r \<and> r \<le> 0xD6) \<or> (0xD8 \<le> r \<and> r \<le> 0xF6) \<or> (0xF8 \<le> r \<and> r \<le> 0xFF)"

definition toLowerASCII :: "string \<Rightarrow> string" where
  "toLowerASCII s =
     map (\<lambda>c. if 0x41 \<le> (of_char c :: nat) \<and> (of_char c :: nat) \<le> 0x5A
               then char_of ((of_char c :: nat) + 32) else c) s"

text \<open>
  UTF-8 in the other direction, to speak of code points: the bytes that encode a code
  point, and the string that encodes a sequence of code points. Lists of code points are
  ordered lexicographically, code point by code point.
\<close>

definition runeBytes :: "rune \<Rightarrow> nat list" where
  "runeBytes r =
     (if r < 0x80 then [r]
      else if r < 0x800 then [0xC0 + r div 64, 0x80 + r mod 64]
      else if r < 0x10000 then [0xE0 + r div 4096, 0x80 + r div 64 mod 64, 0x80 + r mod 64]
      else [0xF0 + r div 262144, 0x80 + r div 4096 mod 64, 0x80 + r div 64 mod 64, 0x80 + r mod 64])"

definition encodeRune :: "rune \<Rightarrow> string" where
  "encodeRune r = map char_of (runeBytes r)"

definition encodeString :: "rune list \<Rightarrow> string" where
  "encodeString rs = concat (map encodeRune rs)"

text \<open>The code points that have an encoding: up to \<^verbatim>\<open>U+10FFFF\<close>, surrogates excluded.\<close>

definition scalarValue :: "rune \<Rightarrow> bool" where
  "scalarValue r \<longleftrightarrow> r < 0xD800 \<or> (0xE000 \<le> r \<and> r < 0x110000)"

section \<open>float64 with rounding\<close>


















section \<open>Outcomes\<close>

lemma and_then_Returns [simp]: "and_then (Returns x) f = f x"
  by (simp add: and_then_def)

lemma and_then_IndexPanic [simp]: "and_then IndexPanic f = IndexPanic"
  by (simp add: and_then_def)

lemma and_then_NonFinite [simp]: "and_then NonFinite f = NonFinite"
  by (simp add: and_then_def)

lemma for_each_Returns:
  "(\<And>x. x \<in> set xs \<Longrightarrow> f x = Returns (g x)) \<Longrightarrow> for_each f xs = Returns (map g xs)"
  by (induction xs) simp_all


section \<open>Term frequency\<close>

lemma countTerms_fold:
  "fold (\<lambda>term termsMap. termsMap(term \<mapsto> (case termsMap term of None \<Rightarrow> 0 | Some n \<Rightarrow> n) + 1)) xs m t
     = (if t \<in> set xs \<or> m t \<noteq> None
        then Some (count_list xs t + (case m t of None \<Rightarrow> 0 | Some n \<Rightarrow> n)) else None)"
  by (induction xs arbitrary: m) (auto split: option.splits)

lemma countTerms_lookup:
  "countTerms xs t = (if t \<in> set xs then Some (count_list xs t) else None)"
  unfolding countTerms_def countTerms_fold by simp

lemma Tf_eq: "Tf vocab tokens = map (\<lambda>row. map (\<lambda>t. real (count_list row t)) vocab) tokens"
  by (auto simp: Tf_def countTerms_lookup count_list_0_iff)

text \<open>
  Claim C3. \<open>Tf\<close> returns one row per token sequence, each row as long as the
  vocabulary; entry \<open>[i][j]\<close> is the number of occurrences of \<open>vocab ! j\<close> in
  \<open>tokens ! i\<close>, and it is \<open>0\<close> for a term the document does not contain. \<open>Tf\<close> has
  no failing branch: it is a plain function to matrices.
\<close>

theorem Tf_counts:
  "length (Tf vocab tokens) = length tokens \<and>
   (\<forall>i<length tokens.
      length (Tf vocab tokens ! i) = length vocab \<and>
      (\<forall>j<length vocab.
         Tf vocab tokens ! i ! j = real (count_list (tokens ! i) (vocab ! j)) \<and>
         (vocab ! j \<notin> set (tokens ! i) \<longrightarrow> Tf vocab tokens ! i ! j = 0)))"
  by (simp add: Tf_eq count_list_0_iff)

theorem Tf_counts_witness:
  "Tf [''the'', ''cat'', ''sat''] [[''the'', ''cat'', ''sat''], [''the'', ''cat'', ''sat'', ''the'']] ! 1 ! 0 = 2
   \<and> Tf [''the'', ''cat'', ''sat''] [[''the'', ''cat''], [''dog'']] ! 1 ! 2 = 0"
proof -
  have a: "(1::nat) < length [[''the'', ''cat'', ''sat''], [''the'', ''cat'', ''sat'', ''the'']]" by simp
  have b: "(0::nat) < length [''the'', ''cat'', ''sat'']" by simp
  have c: "(1::nat) < length [[''the'', ''cat''], [''dog'']]" by simp
  have d: "(2::nat) < length [''the'', ''cat'', ''sat'']" by simp
  have e: "[''the'', ''cat'', ''sat''] ! 2 \<notin> set ([[''the'', ''cat''], [''dog'']] ! 1)" by simp
  from Tf_counts [of "[''the'', ''cat'', ''sat'']" "[[''the'', ''cat'', ''sat''], [''the'', ''cat'', ''sat'', ''the'']]"] a b
  have "Tf [''the'', ''cat'', ''sat''] [[''the'', ''cat'', ''sat''], [''the'', ''cat'', ''sat'', ''the'']] ! 1 ! 0
    = real (count_list ([[''the'', ''cat'', ''sat''], [''the'', ''cat'', ''sat'', ''the'']] ! 1) ([''the'', ''cat'', ''sat''] ! 0))"
    by blast
  moreover from Tf_counts [of "[''the'', ''cat'', ''sat'']" "[[''the'', ''cat''], [''dog'']]"] c d e
  have "Tf [''the'', ''cat'', ''sat''] [[''the'', ''cat''], [''dog'']] ! 1 ! 2 = 0"
    by blast
  ultimately show ?thesis by simp
qed


section \<open>The vocabulary\<close>

lemma vocabulary_step_pair:
  "vocabulary_step a (m, ts) = (if m a \<noteq> None then (m, ts) else (m(a \<mapsto> ()), ts @ [a]))"
  by (simp add: vocabulary_step_def)

lemma vocabulary_fold_step:
  "fold vocabulary_step doc (m, ts) = (m', ts') \<Longrightarrow> dom m = set ts \<Longrightarrow> distinct ts \<Longrightarrow>
     dom m' = set ts' \<and> distinct ts' \<and> set ts' = set ts \<union> set doc"
proof (induction doc arbitrary: m ts)
  case Nil then show ?case by simp
next
  case (Cons a doc)
  show ?case
  proof (cases "m a")
    case None
    with Cons.prems have "fold vocabulary_step doc (m(a \<mapsto> ()), ts @ [a]) = (m', ts')"
      by (simp add: vocabulary_step_pair)
    moreover from None Cons.prems have "dom (m(a \<mapsto> ())) = set (ts @ [a])" "distinct (ts @ [a])"
      by (auto simp: domIff)
    ultimately show ?thesis using Cons.IH by fastforce
  next
    case (Some u)
    with Cons.prems have "fold vocabulary_step doc (m, ts) = (m', ts')"
      by (simp add: vocabulary_step_pair)
    moreover from Some Cons.prems have "a \<in> set ts" by (auto simp: domIff)
    ultimately show ?thesis using Cons.IH Cons.prems by fastforce
  qed
qed

lemma vocabulary_fold:
  "fold (\<lambda>doc st. fold vocabulary_step doc st) tokens (m, ts) = (m', ts') \<Longrightarrow> dom m = set ts \<Longrightarrow> distinct ts \<Longrightarrow>
     dom m' = set ts' \<and> distinct ts' \<and> set ts' = set ts \<union> set (concat tokens)"
proof (induction tokens arbitrary: m ts)
  case Nil then show ?case by simp
next
  case (Cons doc tokens)
  obtain m1 ts1 where s: "fold vocabulary_step doc (m, ts) = (m1, ts1)" by fastforce
  from vocabulary_fold_step [OF s Cons.prems(2,3)]
  have 1: "dom m1 = set ts1" "distinct ts1" "set ts1 = set ts \<union> set doc" by simp_all
  from Cons.prems(1) s have "fold (\<lambda>doc st. fold vocabulary_step doc st) tokens (m1, ts1) = (m', ts')" by simp
  from Cons.IH [OF this 1(1,2)] 1(3) show ?case by auto
qed

lemma vocabulary_eq: "vocabulary tokens = sorted_list_of_set (set (concat tokens))"
proof -
  obtain m ts where s: "fold (\<lambda>doc st. fold vocabulary_step doc st) tokens (Map.empty, []) = (m, ts)" by fastforce
  from vocabulary_fold [OF s] have d: "distinct ts" and e: "set ts = set (concat tokens)" by simp_all
  have "vocabulary tokens = sort ts" by (simp add: vocabulary_def s)
  also have "\<dots> = sorted_list_of_set (set ts)" using d by (simp add: sorted_list_of_set_sort_remdups distinct_remdups_id)
  finally show ?thesis by (simp add: e)
qed

section \<open>Row normalization\<close>

lemma fold_add_sum_list:
  "fold (\<lambda>val norm. norm + f val) vec (a::real) = a + sum_list (map f vec)"
  by (induction vec arbitrary: a) simp_all


lemma sumSquares_sum_list: "sumSquares vec = (\<Sum>v\<leftarrow>vec. v * v)"
  by (simp add: sumSquares_def fold_add_sum_list)


lemma sumSquares_nonneg: "0 \<le> sumSquares vec"
  unfolding sumSquares_sum_list by (induction vec) simp_all



lemma for_each_fdiv: "n \<noteq> 0 \<Longrightarrow> for_each (\<lambda>v. fdiv v n) vec = Returns (map (\<lambda>v. v / n) vec)"
  by (induction vec) (simp_all add: fdiv_def)

lemma l1Normalize_eq:
  "l1Normalize vec = Returns (if sumAbs vec = 0 then vec else map (\<lambda>v. v / sumAbs vec) vec)"
  by (simp add: l1Normalize_def Let_def for_each_fdiv)

lemma l2Normalize_eq:
  "l2Normalize vec =
     Returns (if sqrt (sumSquares vec) = 0 then vec else map (\<lambda>v. v / sqrt (sumSquares vec)) vec)"
  using sumSquares_nonneg [of vec] by (simp add: l2Normalize_def fsqrt_def for_each_fdiv)


section \<open>Cosine similarity\<close>

lemma cosineSums_eq:
  "\<forall>i\<in>set is. i < length vec2 \<Longrightarrow>
   cosineSums vec1 vec2 is (d, a, b) =
     Returns (d + (\<Sum>i\<leftarrow>is. vec1 ! i * vec2 ! i), a + (\<Sum>i\<leftarrow>is. vec1 ! i * vec1 ! i),
              b + (\<Sum>i\<leftarrow>is. vec2 ! i * vec2 ! i))"
  by (induction "is" arbitrary: d a b) (simp_all add: add.assoc)

lemma sum_list_nth_upt: "(\<Sum>i\<leftarrow>[0..<length xs]. f (xs ! i)) = (\<Sum>x\<leftarrow>xs. f x)"
proof -
  have "map (\<lambda>i. f (xs ! i)) [0..<length xs] = map f (map ((!) xs) [0..<length xs])" by simp
  then show ?thesis by (simp only: map_nth)
qed

lemma cosineSums_full:
  assumes "length vec2 = length vec1"
  shows "cosineSums vec1 vec2 [0..<length vec1] (0, 0, 0) =
     Returns (\<Sum>i\<leftarrow>[0..<length vec1]. vec1 ! i * vec2 ! i, sumSquares vec1, sumSquares vec2)"
proof -
  have "(\<Sum>i\<leftarrow>[0..<length vec1]. vec2 ! i * vec2 ! i) = sumSquares vec2"
    using sum_list_nth_upt [of "\<lambda>x. x * x" vec2] assms by (simp add: sumSquares_sum_list)
  moreover have "(\<Sum>i\<leftarrow>[0..<length vec1]. vec1 ! i * vec1 ! i) = sumSquares vec1"
    using sum_list_nth_upt [of "\<lambda>x. x * x" vec1] by (simp add: sumSquares_sum_list)
  ultimately show ?thesis using assms by (simp add: cosineSums_eq)
qed

lemma cosineSimilarity_eq:
  assumes "length vec2 = length vec1"
  shows "cosineSimilarity vec1 vec2 =
     Returns (if sumSquares vec1 = 0 \<or> sumSquares vec2 = 0 then 0
              else (\<Sum>i\<leftarrow>[0..<length vec1]. vec1 ! i * vec2 ! i)
                     / (sqrt (sumSquares vec1) * sqrt (sumSquares vec2)))"
  using sumSquares_nonneg [of vec1] sumSquares_nonneg [of vec2]
  by (simp add: cosineSimilarity_def cosineSums_full [OF assms] fsqrt_def fdiv_def)





section \<open>Inverse document frequency\<close>

lemma docMap_fold:
  "fold (\<lambda>token m. m(token \<mapsto> ())) doc m t \<noteq> None \<longleftrightarrow> t \<in> set doc \<or> m t \<noteq> None"
  by (induction doc arbitrary: m) auto

lemma docMap_lookup: "docMap doc t \<noteq> None \<longleftrightarrow> t \<in> set doc"
  unfolding docMap_def docMap_fold by simp

lemma docCount_fold:
  "fold (\<lambda>m n. if m t \<noteq> None then n + 1 else n) ms k = k + length (filter (\<lambda>m. m t \<noteq> None) ms)"
  by (induction ms arbitrary: k) auto

lemma docCount_df: "docCount (map docMap tokens) t = df t tokens"
  unfolding docCount_def docCount_fold df_def
  by (simp add: filter_map o_def docMap_lookup del: not_None_eq)

lemma df_le: "df t tokens \<le> length tokens"
  by (simp add: df_def)

lemma df_all: "(\<forall>doc\<in>set tokens. t \<in> set doc) \<Longrightarrow> df t tokens = length tokens"
  by (simp add: df_def)

lemma flog_plus_one:
  "0 < x \<Longrightarrow> and_then (flog x) (\<lambda>l. Returns (l + 1)) = Returns (ln x + 1)"
  by (simp add: flog_def)

lemma fdiv_flog_plus_one:
  "0 < x \<Longrightarrow> 0 < y \<Longrightarrow>
   and_then (fdiv x y) (\<lambda>q. and_then (flog q) (\<lambda>l. Returns (l + 1))) = Returns (ln (x / y) + 1)"
  by (simp add: fdiv_def flog_def not_le)

lemma Idf_term:
  assumes "0 < N"
  shows "(let n = d in
          if smoothing then
            and_then (fdiv (real (N + 1)) (real (n + 1)))
              (\<lambda>q. and_then (flog q) (\<lambda>l. Returns (l + 1)))
          else if n = 0 then
            and_then (flog (real N)) (\<lambda>l. Returns (l + 1))
          else
            and_then (fdiv (real N) (real n))
              (\<lambda>q. and_then (flog q) (\<lambda>l. Returns (l + 1))))
         = Returns (idf_weight N d smoothing)"
proof (cases smoothing)
  case True
  have "0 < real (N + 1)" "0 < real (d + 1)" by simp_all
  from fdiv_flog_plus_one [OF this] True assms show ?thesis
    by (simp only: Let_def idf_weight_def if_True) simp
next
  case False
  show ?thesis
  proof (cases "d = 0")
    case True
    have "0 < real N" using assms by simp
    from flog_plus_one [OF this] True False assms show ?thesis
      by (simp only: Let_def idf_weight_def if_True if_False) simp
  next
    case d: False
    have "0 < real N" "0 < real d" using assms d by simp_all
    from fdiv_flog_plus_one [OF this] d False assms show ?thesis
      by (simp only: Let_def idf_weight_def if_True if_False) simp
  qed
qed

lemma Idf_eq:
  "Idf vocab tokens smoothing =
     Returns (map (\<lambda>t. idf_weight (length tokens) (df t tokens) smoothing) vocab)"
proof (cases "length tokens = 0")
  case True
  then show ?thesis by (simp add: Idf_def idf_weight_def)
next
  case False
  then have N: "0 < length tokens" by simp
  have "Idf vocab tokens smoothing =
    for_each
          (\<lambda>term.
             let n = df term tokens in
             if smoothing then
               and_then (fdiv (real (length tokens + 1)) (real (n + 1)))
                 (\<lambda>q. and_then (flog q) (\<lambda>l. Returns (l + 1)))
             else if n = 0 then
               and_then (flog (real (length tokens))) (\<lambda>l. Returns (l + 1))
             else
               and_then (fdiv (real (length tokens)) (real n))
                 (\<lambda>q. and_then (flog q) (\<lambda>l. Returns (l + 1))))
          vocab"
    using False unfolding Idf_def Let_def docCount_df by (simp only: if_False)
  also have "\<dots> = Returns (map (\<lambda>t. idf_weight (length tokens) (df t tokens) smoothing) vocab)"
    by (rule for_each_Returns) (rule Idf_term [OF N])
  finally show ?thesis .
qed

lemma idf_weight_ge_1: "d \<le> N \<Longrightarrow> 1 \<le> idf_weight N d smoothing"
proof -
  assume dN: "d \<le> N"
  have a: "0 \<le> ln (real (N + 1) / real (d + 1))" using dN by (intro ln_ge_zero) simp
  have b: "0 < N \<Longrightarrow> 0 \<le> ln (real N)" by (intro ln_ge_zero) simp
  have c: "0 < d \<Longrightarrow> 0 \<le> ln (real N / real d)" using dN by (intro ln_ge_zero) simp
  show ?thesis using a b c by (auto simp: idf_weight_def)
qed

lemma idf_weight_all_docs: "0 < N \<Longrightarrow> idf_weight N N False = 1"
  by (simp add: idf_weight_def)

text \<open>
  Claim C4. \<open>Idf\<close> returns one weight per vocabulary term: \<open>1\<close> for every term when
  there is no document; \<open>ln ((N + 1) / (df t + 1)) + 1\<close> with smoothing; without smoothing
  \<open>ln N + 1\<close> when no document contains the term and \<open>ln (N / df t) + 1\<close> otherwise, where
  \<open>df t\<close> counts the documents that contain \<open>t\<close>.
\<close>

theorem Idf_formula:
  "Idf vocab tokens smoothing =
     Returns (map (\<lambda>t. if length tokens = 0 then 1
                        else if smoothing
                          then ln (real (length tokens + 1) / real (df t tokens + 1)) + 1
                        else if df t tokens = 0 then ln (real (length tokens)) + 1
                        else ln (real (length tokens) / real (df t tokens)) + 1) vocab)"
  by (simp add: Idf_eq idf_weight_def)

theorem Idf_formula_witness:
  "Idf [''the'', ''cat'', ''rare''] [[''the'', ''cat''], [''the'', ''dog''], [''cat'', ''rare'']] True
     = Returns [ln (4 / 3) + 1, ln (4 / 3) + 1, ln 2 + 1] \<and>
   Idf [''the'', ''cat'', ''rare''] [[''the'', ''cat''], [''the'', ''dog''], [''cat'', ''rare'']] False
     = Returns [ln (3 / 2) + 1, ln (3 / 2) + 1, ln 3 + 1] \<and>
   Idf [''the'', ''cat''] [] False = Returns [1, 1] \<and>
   Idf [''owl''] [[''the'', ''cat'']] False = Returns [ln 1 + 1]"
  using Idf_formula [of "[''the'', ''cat'', ''rare'']" "[[''the'', ''cat''], [''the'', ''dog''], [''cat'', ''rare'']]" True]
    Idf_formula [of "[''the'', ''cat'', ''rare'']" "[[''the'', ''cat''], [''the'', ''dog''], [''cat'', ''rare'']]" False]
    Idf_formula [of "[''the'', ''cat'']" "[]" False]
    Idf_formula [of "[''owl'']" "[[''the'', ''cat'']]" False]
  by (simp add: df_def)

text \<open>
  Claim C9. Every weight \<open>Idf\<close> returns is strictly positive, and without smoothing a
  term that occurs in every one of \<open>N \<ge> 1\<close> documents has the weight \<open>ln 1 + 1 = 1\<close>.
\<close>

theorem Idf_positive:
  "\<exists>ws. Idf vocab tokens smoothing = Returns ws \<and> length ws = length vocab \<and>
      (\<forall>w\<in>set ws. 0 < w) \<and>
      (\<forall>j<length vocab. tokens \<noteq> [] \<and> \<not> smoothing \<and> (\<forall>doc\<in>set tokens. vocab ! j \<in> set doc)
          \<longrightarrow> ws ! j = 1)"
proof (intro exI conjI ballI allI impI)
  show "Idf vocab tokens smoothing =
     Returns (map (\<lambda>t. idf_weight (length tokens) (df t tokens) smoothing) vocab)"
    by (rule Idf_eq)
next
  show "length (map (\<lambda>t. idf_weight (length tokens) (df t tokens) smoothing) vocab) = length vocab"
    by simp
next
  fix w
  assume "w \<in> set (map (\<lambda>t. idf_weight (length tokens) (df t tokens) smoothing) vocab)"
  then obtain t where "w = idf_weight (length tokens) (df t tokens) smoothing" by auto
  with idf_weight_ge_1 [OF df_le [of t tokens], of smoothing] show "0 < w" by simp
next
  fix j
  assume j: "j < length vocab"
    and a: "tokens \<noteq> [] \<and> \<not> smoothing \<and> (\<forall>doc\<in>set tokens. vocab ! j \<in> set doc)"
  then have "df (vocab ! j) tokens = length tokens" by (simp add: df_all)
  with a j idf_weight_all_docs [of "length tokens"]
  show "map (\<lambda>t. idf_weight (length tokens) (df t tokens) smoothing) vocab ! j = 1" by simp
qed

theorem Idf_positive_witness:
  "\<exists>ws. Idf [''the'', ''cat''] [[''the'', ''cat''], [''the'', ''dog'']] False = Returns ws \<and>
      0 < ws ! 0 \<and> 0 < ws ! 1 \<and> ws ! 0 = 1"
proof -
  from Idf_positive [of "[''the'', ''cat'']" "[[''the'', ''cat''], [''the'', ''dog'']]" False]
  obtain ws where ws: "Idf [''the'', ''cat''] [[''the'', ''cat''], [''the'', ''dog'']] False = Returns ws"
    "length ws = length [''the'', ''cat'']" "\<forall>w\<in>set ws. 0 < w"
    "\<forall>j<length [''the'', ''cat'']. [[''the'', ''cat''], [''the'', ''dog'']] \<noteq> [] \<and> \<not> False \<and>
        (\<forall>doc\<in>set [[''the'', ''cat''], [''the'', ''dog'']]. [''the'', ''cat''] ! j \<in> set doc)
          \<longrightarrow> ws ! j = 1"
    by blast
  have h: "[[''the'', ''cat''], [''the'', ''dog'']] \<noteq> [] \<and> \<not> False \<and>
        (\<forall>doc\<in>set [[''the'', ''cat''], [''the'', ''dog'']]. [''the'', ''cat''] ! 0 \<in> set doc)"
    by simp
  have l: "(0::nat) < length [''the'', ''cat'']" by simp
  from ws(4) [THEN spec, THEN mp, OF l, THEN mp, OF h] have "ws ! 0 = 1" .
  moreover from ws(2,3) have "0 < ws ! 0" "0 < ws ! 1" by simp_all
  ultimately show ?thesis using ws(1) by blast
qed


section \<open>The vectorizer\<close>

lemma weigh_in_range:
  "\<forall>j\<in>set js. j < length tfRow \<and> j < length idfVec \<Longrightarrow>
   weigh tfRow idfVec js = Returns (map (\<lambda>j. tfRow ! j * idfVec ! j) js)"
  by (induction js) simp_all

lemma weigh_out_of_range:
  "\<exists>j\<in>set js. \<not> (j < length tfRow \<and> j < length idfVec) \<Longrightarrow> weigh tfRow idfVec js = IndexPanic"
  by (induction js) auto

lemma weigh_width:
  "weigh tfRow idfVec [0..<width] =
     (if width \<le> length tfRow \<and> width \<le> length idfVec
      then Returns (map (\<lambda>j. tfRow ! j * idfVec ! j) [0..<width]) else IndexPanic)"
proof (cases "width \<le> length tfRow \<and> width \<le> length idfVec")
  case True
  then have "\<forall>j\<in>set [0..<width]. j < length tfRow \<and> j < length idfVec" by auto
  from weigh_in_range [OF this] True show ?thesis by simp
next
  case False
  then have "width - 1 \<in> set [0..<width] \<and> \<not> (width - 1 < length tfRow \<and> width - 1 < length idfVec)"
    by auto
  then have "\<exists>j\<in>set [0..<width]. \<not> (j < length tfRow \<and> j < length idfVec)" by blast
  from weigh_out_of_range [OF this] False show ?thesis by simp
qed

lemma doNormalize_valid:
  "validLevel t \<Longrightarrow> \<exists>v. doNormalize t w = Returns (v, None) \<and> length v = length w"
  by (auto simp: validLevel_def doNormalize_def l1Normalize_eq l2Normalize_eq)

lemma doNormalize_invalid:
  "\<not> validLevel t \<Longrightarrow> doNormalize t w = Returns ([], Some InvalidConfig)"
  by (simp add: validLevel_def doNormalize_def)

lemma tfIdfRows_invalid:
  assumes "\<not> validLevel t" and "width \<le> length tfRow" and "width \<le> length idfVec"
  shows "tfIdfRows t width (tfRow # rest) idfVec = Returns ([], Some InvalidConfig)"
  using assms by (simp add: weigh_width doNormalize_invalid)

lemma tfIdfRows_valid:
  assumes "validLevel t" and "width \<le> length idfVec"
  shows "\<forall>row\<in>set rows. width \<le> length row \<Longrightarrow>
     \<exists>m. tfIdfRows t width rows idfVec = Returns (m, None) \<and> length m = length rows
         \<and> (\<forall>r\<in>set m. length r = width)"
proof (induction rows)
  case Nil
  show ?case by simp
next
  case (Cons row rows)
  then obtain m where m: "tfIdfRows t width rows idfVec = Returns (m, None)"
     "length m = length rows" "\<forall>r\<in>set m. length r = width" by auto
  from Cons.prems have w: "width \<le> length row" by simp
  obtain v where v: "doNormalize t (map (\<lambda>j. row ! j * idfVec ! j) [0..<width]) = Returns (v, None)"
     "length v = width"
    using doNormalize_valid [OF assms(1), of "map (\<lambda>j. row ! j * idfVec ! j) [0..<width]"] by auto
  have "tfIdfRows t width (row # rows) idfVec = Returns (v # m, None)"
    using w assms(2) by (simp add: weigh_width v m)
  with m v show ?case by simp
qed

lemma tfIdfRows_error:
  "tfIdfRows t width rows idfVec = Returns (m, Some e) \<Longrightarrow> m = [] \<and> e = InvalidConfig \<and> \<not> validLevel t"
proof (induction rows arbitrary: m e)
  case Nil
  then show ?case by simp
next
  case (Cons row rows)
  show ?case
  proof (cases "validLevel t")
    case False
    with Cons.prems show ?thesis
      by (auto simp: weigh_width doNormalize_invalid split: if_splits)
  next
    case True
    from Cons.prems have w: "width \<le> length row \<and> width \<le> length idfVec"
      by (auto simp: weigh_width split: if_splits)
    obtain v where v: "doNormalize t (map (\<lambda>j. row ! j * idfVec ! j) [0..<width]) = Returns (v, None)"
      using doNormalize_valid [OF True, of "map (\<lambda>j. row ! j * idfVec ! j) [0..<width]"] by auto
    show ?thesis
    proof (cases "tfIdfRows t width rows idfVec")
      case IndexPanic
      with Cons.prems w v show ?thesis by (simp add: weigh_width)
    next
      case NonFinite
      with Cons.prems w v show ?thesis by (simp add: weigh_width)
    next
      case (Returns p)
      obtain m' err' where p: "p = (m', err')" by (cases p)
      show ?thesis
      proof (cases err')
        case None
        with Cons.prems w v Returns p show ?thesis by (simp add: weigh_width)
      next
        case (Some e')
        with Cons.IH [of m' e'] Returns p have "\<not> validLevel t" by simp
        with True show ?thesis by simp
      qed
    qed
  qed
qed

lemma tfIdfRows_finite: "tfIdfRows t width rows idfVec \<noteq> NonFinite"
proof (induction rows)
  case Nil
  show ?case by simp
next
  case (Cons row rows)
  show ?case
  proof (cases "width \<le> length row \<and> width \<le> length idfVec")
    case False
    then have "weigh row idfVec [0..<width] = IndexPanic" by (simp only: weigh_width if_False)
    then show ?thesis by simp
  next
    case w: True
    show ?thesis
    proof (cases "validLevel t")
      case False
      with w show ?thesis by (simp add: weigh_width doNormalize_invalid)
    next
      case True
      obtain v where v: "doNormalize t (map (\<lambda>j. row ! j * idfVec ! j) [0..<width]) = Returns (v, None)"
        using doNormalize_valid [OF True, of "map (\<lambda>j. row ! j * idfVec ! j) [0..<width]"] by auto
      from Cons.IH w v show ?thesis
        by (cases "tfIdfRows t width rows idfVec") (auto simp: weigh_width split: option.splits)
    qed
  qed
qed

lemma tfIdfRows_no_panic:
  assumes "\<forall>row\<in>set rows. width \<le> length row" and "width \<le> length idfVec"
  shows "tfIdfRows t width rows idfVec \<noteq> IndexPanic"
proof (cases "validLevel t")
  case True
  from tfIdfRows_valid [OF True assms(2) assms(1)] show ?thesis by auto
next
  case False
  show ?thesis
  proof (cases rows)
    case Nil
    then show ?thesis by simp
  next
    case (Cons row rest)
    with assms have "width \<le> length row" by simp
    from tfIdfRows_invalid [OF False this assms(2)] Cons show ?thesis by simp
  qed
qed

lemma TfIdf_nonempty:
  "tfVec \<noteq> [] \<Longrightarrow> length (tfVec ! 0) = length idfVec \<Longrightarrow>
   TfIdf t tfVec idfVec = tfIdfRows t (length idfVec) tfVec idfVec"
  by (simp add: TfIdf_def)

text \<open>
  Claim C6, as amended. The checks of \<open>TfIdf\<close> run in order, and each error is returned
  when the checks before it pass: \<open>EmptyInput\<close> exactly when the TF matrix has no row;
  \<open>ShapeMismatch\<close> when the matrix has a row and the length of its first row differs
  from the length of the IDF vector; \<open>InvalidConfig\<close> when the matrix has a row, the
  first row matches and the normalization level is none of \<open>NoNorm\<close>, \<open>L1Norm\<close>,
  \<open>L2Norm\<close>. Whenever it returns an error the returned matrix is \<^verbatim>\<open>nil\<close>.
\<close>

theorem TfIdf_failures:
  "((\<exists>m. TfIdf t tfVec idfVec = Returns (m, Some EmptyInput)) \<longleftrightarrow> tfVec = []) \<and>
   (tfVec \<noteq> [] \<and> length (tfVec ! 0) \<noteq> length idfVec
      \<longrightarrow> TfIdf t tfVec idfVec = Returns ([], Some ShapeMismatch)) \<and>
   (tfVec \<noteq> [] \<and> length (tfVec ! 0) = length idfVec
      \<and> NormLevel t \<noteq> NoNorm \<and> NormLevel t \<noteq> L1Norm \<and> NormLevel t \<noteq> L2Norm
      \<longrightarrow> TfIdf t tfVec idfVec = Returns ([], Some InvalidConfig)) \<and>
   (\<forall>m e. TfIdf t tfVec idfVec = Returns (m, Some e) \<longrightarrow> m = [])"
proof (intro conjI impI allI iffI)
  assume "\<exists>m. TfIdf t tfVec idfVec = Returns (m, Some EmptyInput)"
  then obtain m where m: "TfIdf t tfVec idfVec = Returns (m, Some EmptyInput)" ..
  show "tfVec = []"
  proof (rule ccontr)
    assume ne: "tfVec \<noteq> []"
    with m have "tfIdfRows t (length (tfVec ! 0)) tfVec idfVec = Returns (m, Some EmptyInput)"
      by (simp add: TfIdf_def split: if_splits)
    from tfIdfRows_error [OF this] show False by simp
  qed
next
  assume "tfVec = []"
  then show "\<exists>m. TfIdf t tfVec idfVec = Returns (m, Some EmptyInput)" by (simp add: TfIdf_def)
next
  assume "tfVec \<noteq> [] \<and> length (tfVec ! 0) \<noteq> length idfVec"
  then show "TfIdf t tfVec idfVec = Returns ([], Some ShapeMismatch)" by (simp add: TfIdf_def)
next
  assume a: "tfVec \<noteq> [] \<and> length (tfVec ! 0) = length idfVec
      \<and> NormLevel t \<noteq> NoNorm \<and> NormLevel t \<noteq> L1Norm \<and> NormLevel t \<noteq> L2Norm"
  then obtain row rest where r: "tfVec = row # rest" by (cases tfVec) auto
  with a have w: "length idfVec \<le> length row" "length idfVec \<le> length idfVec" by simp_all
  from a have "\<not> validLevel t" by (simp add: validLevel_def)
  from tfIdfRows_invalid [OF this w] a r show "TfIdf t tfVec idfVec = Returns ([], Some InvalidConfig)"
    by (simp add: TfIdf_nonempty)
next
  fix m e
  assume m: "TfIdf t tfVec idfVec = Returns (m, Some e)"
  show "m = []"
  proof (cases "tfVec = [] \<or> length (tfVec ! 0) \<noteq> length idfVec")
    case True
    with m show ?thesis by (auto simp: TfIdf_def split: if_splits)
  next
    case False
    with m have "tfIdfRows t (length idfVec) tfVec idfVec = Returns (m, Some e)"
      by (simp add: TfIdf_nonempty)
    from tfIdfRows_error [OF this] show ?thesis by simp
  qed
qed

theorem TfIdf_failures_witness:
  "TfIdf \<lparr>NormLevel = 7\<rparr> [] [1, 1] = Returns ([], Some EmptyInput) \<and>
   TfIdf \<lparr>NormLevel = 7\<rparr> [[1, 2]] [1] = Returns ([], Some ShapeMismatch) \<and>
   TfIdf \<lparr>NormLevel = 7\<rparr> [[1, 2]] [1, 1] = Returns ([], Some InvalidConfig)"
proof -
  note T = TfIdf_failures
  have 1: "([] :: real list list) = []" by simp
  have 2: "[[1, 2 :: real]] \<noteq> [] \<and> length ([[1, 2 :: real]] ! 0) \<noteq> length [1 :: real]" by simp
  have 3: "[[1, 2 :: real]] \<noteq> [] \<and> length ([[1, 2 :: real]] ! 0) = length [1, 1 :: real]
      \<and> NormLevel \<lparr>NormLevel = 7\<rparr> \<noteq> NoNorm \<and> NormLevel \<lparr>NormLevel = 7\<rparr> \<noteq> L1Norm
      \<and> NormLevel \<lparr>NormLevel = 7\<rparr> \<noteq> L2Norm"
    by (simp add: NoNorm_def L1Norm_def L2Norm_def)
  from T [of "\<lparr>NormLevel = 7\<rparr>" "[]" "[1, 1]", THEN conjunct1, THEN iffD2, OF 1]
  obtain m where m: "TfIdf \<lparr>NormLevel = 7\<rparr> [] [1, 1] = Returns (m, Some EmptyInput)" ..
  from T [of "\<lparr>NormLevel = 7\<rparr>" "[]" "[1, 1]", THEN conjunct2, THEN conjunct2, THEN conjunct2,
          THEN spec, THEN spec, THEN mp, OF m]
  have "m = []" .
  with m have a: "TfIdf \<lparr>NormLevel = 7\<rparr> [] [1, 1] = Returns ([], Some EmptyInput)" by simp
  show ?thesis
    using a T [of "\<lparr>NormLevel = 7\<rparr>" "[[1, 2]]" "[1]", THEN conjunct2, THEN conjunct1, THEN mp, OF 2]
      T [of "\<lparr>NormLevel = 7\<rparr>" "[[1, 2]]" "[1, 1]", THEN conjunct2, THEN conjunct2, THEN conjunct1, THEN mp, OF 3]
    by (intro conjI)
qed

text \<open>
  The claim as first stated gives \<open>InvalidConfig\<close> to every vectorizer with an invalid
  level. With the level \<open>7\<close> the empty matrix is answered with \<open>EmptyInput\<close> and a
  matrix of the wrong width with \<open>ShapeMismatch\<close>: the level is looked at last.
\<close>

theorem TfIdf_invalid_level_masked:
  "NormLevel \<lparr>NormLevel = 7\<rparr> \<noteq> NoNorm \<and> NormLevel \<lparr>NormLevel = 7\<rparr> \<noteq> L1Norm \<and>
   NormLevel \<lparr>NormLevel = 7\<rparr> \<noteq> L2Norm \<and>
   TfIdf \<lparr>NormLevel = 7\<rparr> [] [] = Returns ([], Some EmptyInput) \<and>
   TfIdf \<lparr>NormLevel = 7\<rparr> [] [] \<noteq> Returns ([], Some InvalidConfig) \<and>
   TfIdf \<lparr>NormLevel = 7\<rparr> [[1, 2]] [1] = Returns ([], Some ShapeMismatch) \<and>
   TfIdf \<lparr>NormLevel = 7\<rparr> [[1, 2]] [1] \<noteq> Returns ([], Some InvalidConfig)"
  by (simp add: TfIdf_def NoNorm_def L1Norm_def L2Norm_def)

lemma TfIdf_ragged_short: "TfIdf NewTfIdfVectorizer [[1], []] [1] = IndexPanic"
  by (simp add: TfIdf_def NewTfIdfVectorizer_def doNormalize_def L1Norm_def L2Norm_def
        l2Normalize_eq sumSquares_sum_list)

lemma TfIdf_ragged_long: "TfIdf NewTfIdfVectorizer [[1], [3, 4]] [1] = Returns ([[1], [1]], None)"
  by (simp add: TfIdf_def NewTfIdfVectorizer_def doNormalize_def L1Norm_def L2Norm_def
        l2Normalize_eq sumSquares_sum_list)

text \<open>
  Claim C10. The shape check of \<open>TfIdf\<close> looks at the first row only. When every row is
  as long as the IDF vector no index is out of range, and a matrix with a row and a valid
  level gives a result of the same shape. A matrix whose first row matches is never
  rejected with \<open>ShapeMismatch\<close>, whatever its other rows: a shorter later row panics, a
  longer one is cut to the width of the first.
\<close>

theorem TfIdf_checks_first_row_only:
  "((\<forall>row\<in>set tfVec. length row = length idfVec) \<longrightarrow>
      TfIdf t tfVec idfVec \<noteq> IndexPanic \<and>
      (tfVec \<noteq> [] \<and> (NormLevel t = NoNorm \<or> NormLevel t = L1Norm \<or> NormLevel t = L2Norm) \<longrightarrow>
         (\<exists>m. TfIdf t tfVec idfVec = Returns (m, None) \<and> map length m = map length tfVec))) \<and>
   (tfVec \<noteq> [] \<and> length (tfVec ! 0) = length idfVec \<longrightarrow>
      (\<forall>m. TfIdf t tfVec idfVec \<noteq> Returns (m, Some ShapeMismatch))) \<and>
   TfIdf NewTfIdfVectorizer [[1], []] [1] = IndexPanic \<and>
   TfIdf NewTfIdfVectorizer [[1], [3, 4]] [1] = Returns ([[1], [1]], None)"
proof (intro conjI impI allI)
  assume rect: "\<forall>row\<in>set tfVec. length row = length idfVec"
  show "TfIdf t tfVec idfVec \<noteq> IndexPanic"
  proof (cases "tfVec = []")
    case True
    then show ?thesis by (simp add: TfIdf_def)
  next
    case False
    with rect have "length (tfVec ! 0) = length idfVec" by simp
    moreover from rect have "\<forall>row\<in>set tfVec. length idfVec \<le> length row" by simp
    from tfIdfRows_no_panic [OF this, where t = t] have "tfIdfRows t (length idfVec) tfVec idfVec \<noteq> IndexPanic"
      by simp
    ultimately show ?thesis using False by (simp add: TfIdf_nonempty)
  qed
next
  assume rect: "\<forall>row\<in>set tfVec. length row = length idfVec"
    and v: "tfVec \<noteq> [] \<and> (NormLevel t = NoNorm \<or> NormLevel t = L1Norm \<or> NormLevel t = L2Norm)"
  then have 0: "length (tfVec ! 0) = length idfVec" by simp
  from v have val: "validLevel t" by (simp add: validLevel_def)
  from rect have "\<forall>row\<in>set tfVec. length idfVec \<le> length row" by simp
  from tfIdfRows_valid [OF val _ this, of idfVec]
  obtain m where m: "tfIdfRows t (length idfVec) tfVec idfVec = Returns (m, None)"
    "length m = length tfVec" "\<forall>r\<in>set m. length r = length idfVec" by auto
  have "map length m = map length tfVec"
    using m(2,3) rect by (auto simp: list_eq_iff_nth_eq)
  with m(1) v 0 show "\<exists>m. TfIdf t tfVec idfVec = Returns (m, None) \<and> map length m = map length tfVec"
    by (simp add: TfIdf_nonempty)
next
  fix m
  assume a: "tfVec \<noteq> [] \<and> length (tfVec ! 0) = length idfVec"
  show "TfIdf t tfVec idfVec \<noteq> Returns (m, Some ShapeMismatch)"
  proof
    assume "TfIdf t tfVec idfVec = Returns (m, Some ShapeMismatch)"
    with a have "tfIdfRows t (length idfVec) tfVec idfVec = Returns (m, Some ShapeMismatch)"
      by (simp add: TfIdf_nonempty)
    from tfIdfRows_error [OF this] show False by simp
  qed
next
  show "TfIdf NewTfIdfVectorizer [[1], []] [1] = IndexPanic" by (rule TfIdf_ragged_short)
next
  show "TfIdf NewTfIdfVectorizer [[1], [3, 4]] [1] = Returns ([[1], [1]], None)" by (rule TfIdf_ragged_long)
qed

theorem TfIdf_checks_first_row_only_witness:
  "TfIdf NewTfIdfVectorizer [[3, 4], [0, 0]] [1, 1] \<noteq> IndexPanic \<and>
   (\<exists>m. TfIdf NewTfIdfVectorizer [[3, 4], [0, 0]] [1, 1] = Returns (m, None)
         \<and> map length m = [2, 2]) \<and>
   (\<forall>m. TfIdf NewTfIdfVectorizer [[1], [3, 4]] [1] \<noteq> Returns (m, Some ShapeMismatch))"
proof -
  note T = TfIdf_checks_first_row_only
  have 1: "\<forall>row\<in>set [[3, 4], [0, 0 :: real]]. length row = length [1, 1 :: real]" by simp
  have 2: "[[3, 4], [0, 0 :: real]] \<noteq> [] \<and>
    (NormLevel NewTfIdfVectorizer = NoNorm \<or> NormLevel NewTfIdfVectorizer = L1Norm
      \<or> NormLevel NewTfIdfVectorizer = L2Norm)"
    by (simp add: NewTfIdfVectorizer_def)
  have 3: "[[1], [3, 4 :: real]] \<noteq> [] \<and> length ([[1], [3, 4 :: real]] ! 0) = length [1 :: real]" by simp
  note A = T [of "[[3, 4], [0, 0]]" "[1, 1]" NewTfIdfVectorizer, THEN conjunct1, THEN mp, OF 1]
  from A [THEN conjunct2, THEN mp, OF 2]
  have "\<exists>m. TfIdf NewTfIdfVectorizer [[3, 4], [0, 0]] [1, 1] = Returns (m, None)
         \<and> map length m = [2, 2]" by (simp add: numeral_2_eq_2)
  then show ?thesis
    using A [THEN conjunct1]
      T [of "[[1], [3, 4]]" "[1]" NewTfIdfVectorizer, THEN conjunct2, THEN conjunct1, THEN mp, OF 3]
    by (intro conjI)
qed

section \<open>The tokenizer\<close>

lemma tokenize_cong:
  assumes "\<forall>ir\<in>set (rangeString 0 doc). isLetter (snd ir) = isLetter' (snd ir)"
  shows "tokenize isLetter t doc = tokenize isLetter' t doc"
proof -
  have "fold (scan_step isLetter t doc) (rangeString 0 doc) ([], -1)
      = fold (scan_step isLetter' t doc) (rangeString 0 doc) ([], -1)"
  proof (rule fold_cong [OF refl refl])
    fix ir
    assume "ir \<in> set (rangeString 0 doc)"
    with assms have "isLetter (snd ir) = isLetter' (snd ir)" by simp
    then show "scan_step isLetter t doc ir = scan_step isLetter' t doc ir"
      by (cases ir) (simp add: scan_step_def fun_eq_iff)
  qed
  then show ?thesis by (simp add: tokenize_def)
qed

lemma scan_fold_normalize:
  "fold (scan_step isLetter \<lparr>normalizeFunc = Some f\<rparr> doc) irs (map f toks, s)
     = (case fold (scan_step isLetter \<lparr>normalizeFunc = None\<rparr> doc) irs (toks, s) of
          (toks', s') \<Rightarrow> (map f toks', s'))"
proof (induction irs arbitrary: toks s)
  case Nil
  show ?case by simp
next
  case (Cons ir irs)
  obtain i r where ir: "ir = (i, r)" by (cases ir)
  have "scan_step isLetter \<lparr>normalizeFunc = Some f\<rparr> doc ir (map f toks, s)
      = (case scan_step isLetter \<lparr>normalizeFunc = None\<rparr> doc ir (toks, s) of
          (toks', s') \<Rightarrow> (map f toks', s'))"
    by (simp add: ir scan_step_def Tokenizer_doNormalize_def)
  moreover obtain toks1 s1 where 1: "scan_step isLetter \<lparr>normalizeFunc = None\<rparr> doc ir (toks, s) = (toks1, s1)"
    by fastforce
  ultimately show ?case using Cons.IH [of toks1 s1] by simp
qed

lemma tokenize_normalize:
  "tokenize isLetter \<lparr>normalizeFunc = Some f\<rparr> doc
     = map f (tokenize isLetter \<lparr>normalizeFunc = None\<rparr> doc)"
proof -
  obtain toks s where 1:
    "fold (scan_step isLetter \<lparr>normalizeFunc = None\<rparr> doc) (rangeString 0 doc) ([], -1) = (toks, s)"
    by fastforce
  with scan_fold_normalize [of isLetter f doc "rangeString 0 doc" "[]" "-1"]
  have 2: "fold (scan_step isLetter \<lparr>normalizeFunc = Some f\<rparr> doc) (rangeString 0 doc) ([], -1)
      = (map f toks, s)" by simp
  show ?thesis by (simp add: tokenize_def 1 2 Tokenizer_doNormalize_def)
qed

lemma Tokenize_normalize:
  "Tokenize isLetter \<lparr>normalizeFunc = Some f\<rparr> documents =
     (vocabulary (map (\<lambda>doc. map f (map f (tokenize isLetter \<lparr>normalizeFunc = None\<rparr> doc))) documents),
      map (\<lambda>doc. map f (map f (tokenize isLetter \<lparr>normalizeFunc = None\<rparr> doc))) documents, None)"
  by (simp add: Tokenize_def Let_def tokenize_normalize)

text \<open>
  Claim C2. Every token is a maximal run of letters of at least two code points; a run of
  one letter is never a token. The scanner measures a run in bytes
  (\<^verbatim>\<open>i-start > 1\<close> and \<^verbatim>\<open>len(doc)-start > 1\<close> on the byte offsets of the range
  loop), so the claim fails on a lone letter whose encoding has more than one byte: the
  document that is the single letter \<^verbatim>\<open>U+00E9\<close>, the two bytes \<^verbatim>\<open>C3 A9\<close>, is
  one code point, and the scanner emits it as a token.
\<close>

theorem tokenize_lone_multibyte_letter:
  assumes "isLetter 0xE9"
  shows "tokenize isLetter \<lparr>normalizeFunc = None\<rparr> [CHR 0xC3, CHR 0xA9] = [[CHR 0xC3, CHR 0xA9]]
     \<and> rangeString 0 [CHR 0xC3, CHR 0xA9] = [(0, 0xE9)]
     \<and> runeCount [CHR 0xC3, CHR 0xA9] = 1"
proof -
  have r: "rangeString 0 [CHR 0xC3, CHR 0xA9] = [(0, 0xE9)]" by code_simp
  have "tokenize isLetter \<lparr>normalizeFunc = None\<rparr> [CHR 0xC3, CHR 0xA9] = [[CHR 0xC3, CHR 0xA9]]"
    unfolding tokenize_def r
    using assms by (simp add: scan_step_def slice_def Tokenizer_doNormalize_def)
  with r show ?thesis by (simp add: runeCount_def)
qed

theorem tokenize_lone_multibyte_letter_witness:
  "tokenize isLetterLatin1 \<lparr>normalizeFunc = None\<rparr> [CHR 0xC3, CHR 0xA9] = [[CHR 0xC3, CHR 0xA9]]
     \<and> runeCount [CHR 0xC3, CHR 0xA9] = 1"
proof -
  have "isLetterLatin1 0xE9" by (simp add: isLetterLatin1_def)
  from tokenize_lone_multibyte_letter [of isLetterLatin1, OF this] show ?thesis by simp
qed


section \<open>The similarity engine on the test corpus\<close>

lemma runes_apple_orange: "map snd (rangeString 0 ''apple orange'')
   = [97, 112, 112, 108, 101, 32, 111, 114, 97, 110, 103, 101]"
  by code_simp

lemma runes_banana_grape: "map snd (rangeString 0 ''banana grape'')
   = [98, 97, 110, 97, 110, 97, 32, 103, 114, 97, 112, 101]"
  by code_simp

lemma runes_apple_banana: "map snd (rangeString 0 ''apple banana'')
   = [97, 112, 112, 108, 101, 32, 98, 97, 110, 97, 110, 97]"
  by code_simp

lemma tokens_apple_orange:
  "tokenize isLetterLatin1 \<lparr>normalizeFunc = None\<rparr> ''apple orange'' = [''apple'', ''orange'']"
  by code_simp

lemma tokens_banana_grape:
  "tokenize isLetterLatin1 \<lparr>normalizeFunc = None\<rparr> ''banana grape'' = [''banana'', ''grape'']"
  by code_simp

lemma tokens_apple_banana:
  "tokenize isLetterLatin1 \<lparr>normalizeFunc = None\<rparr> ''apple banana'' = [''apple'', ''banana'']"
  by code_simp

lemma vocabulary_fruit:
  "vocabulary [[''apple'', ''orange''], [''banana'', ''grape'']] = [''apple'', ''banana'', ''grape'', ''orange'']"
  by code_simp

lemma agree_on_runes:
  assumes "\<And>r. 0x61 \<le> r \<Longrightarrow> r \<le> 0x7A \<Longrightarrow> isLetter r" and "\<not> isLetter 0x20"
    and "set (map snd (rangeString 0 doc)) \<subseteq> insert 0x20 {0x61..0x7A}"
  shows "\<forall>ir\<in>set (rangeString 0 doc). isLetter (snd ir) = isLetterLatin1 (snd ir)"
proof
  fix ir
  assume "ir \<in> set (rangeString 0 doc)"
  with assms(3) have "snd ir = 0x20 \<or> (0x61 \<le> snd ir \<and> snd ir \<le> 0x7A)" by auto
  then show "isLetter (snd ir) = isLetterLatin1 (snd ir)"
    using assms(1,2) by (auto simp: isLetterLatin1_def)
qed

lemma Tf_fruit_docs:
  "Tf [''apple'', ''banana'', ''grape'', ''orange''] [[''apple'', ''orange''], [''banana'', ''grape'']]
     = [[1, 0, 0, 1], [0, 1, 1, 0]]"
  by (simp add: Tf_eq)

lemma Tf_fruit_query:
  "Tf [''apple'', ''banana'', ''grape'', ''orange''] [[''apple'', ''banana'']] = [[1, 1, 0, 0]]"
  by (simp add: Tf_eq)

lemma Idf_fruit:
  "Idf [''apple'', ''banana'', ''grape'', ''orange''] [[''apple'', ''orange''], [''banana'', ''grape'']] True
     = Returns [ln (3 / 2) + 1, ln (3 / 2) + 1, ln (3 / 2) + 1, ln (3 / 2) + 1]"
  by (simp add: Idf_eq idf_weight_def df_def)

lemma l2Normalize_two:
  assumes "0 < c"
  shows "l2Normalize [c, 0, 0, c] = Returns [1 / sqrt 2, 0, 0, 1 / sqrt 2]"
    and "l2Normalize [0, c, c, 0] = Returns [0, 1 / sqrt 2, 1 / sqrt 2, 0]"
    and "l2Normalize [c, c, 0, 0] = Returns [1 / sqrt 2, 1 / sqrt 2, 0, 0]"
proof -
  have "sqrt (2 * (c * c)) = sqrt 2 * sqrt (c * c)" by (rule real_sqrt_mult)
  then have s: "sqrt (2 * (c * c)) = sqrt 2 * c" using assms by simp
  have q: "c / (sqrt 2 * c) = 1 / sqrt 2" using assms by simp
  have nz: "sqrt 2 * c \<noteq> 0" using assms by simp
  have 1: "sqrt (sumSquares [c, 0, 0, c]) = sqrt 2 * c"
    and 2: "sqrt (sumSquares [0, c, c, 0]) = sqrt 2 * c"
    and 3: "sqrt (sumSquares [c, c, 0, 0]) = sqrt 2 * c"
    using s by (simp_all add: sumSquares_sum_list)
  show "l2Normalize [c, 0, 0, c] = Returns [1 / sqrt 2, 0, 0, 1 / sqrt 2]"
    unfolding l2Normalize_eq 1 using nz q by simp
  show "l2Normalize [0, c, c, 0] = Returns [0, 1 / sqrt 2, 1 / sqrt 2, 0]"
    unfolding l2Normalize_eq 2 using nz q by simp
  show "l2Normalize [c, c, 0, 0] = Returns [1 / sqrt 2, 1 / sqrt 2, 0, 0]"
    unfolding l2Normalize_eq 3 using nz q by simp
qed

lemma upt_4: "[0..<4] = [0, 1, 2, 3]"
  by (simp add: upt_rec)

lemma TfIdf_fruit_docs:
  assumes "0 < c"
  shows "TfIdf NewTfIdfVectorizer [[1, 0, 0, 1], [0, 1, 1, 0]] [c, c, c, c]
     = Returns ([[1 / sqrt 2, 0, 0, 1 / sqrt 2], [0, 1 / sqrt 2, 1 / sqrt 2, 0]], None)"
  by (simp add: TfIdf_def weigh_width upt_4 doNormalize_def NewTfIdfVectorizer_def L1Norm_def L2Norm_def
        l2Normalize_two [OF assms])

lemma TfIdf_fruit_query:
  assumes "0 < c"
  shows "TfIdf NewTfIdfVectorizer [[1, 1, 0, 0]] [c, c, c, c]
     = Returns ([[1 / sqrt 2, 1 / sqrt 2, 0, 0]], None)"
  by (simp add: TfIdf_def weigh_width upt_4 doNormalize_def NewTfIdfVectorizer_def L1Norm_def L2Norm_def
        l2Normalize_two [OF assms])

lemma cosine_fruit:
  "cosineSimilarity [1 / sqrt 2, 1 / sqrt 2, 0, 0] [1 / sqrt 2, 0, 0, 1 / sqrt 2] = Returns (1 / 2)"
  "cosineSimilarity [1 / sqrt 2, 1 / sqrt 2, 0, 0] [0, 1 / sqrt 2, 1 / sqrt 2, 0] = Returns (1 / 2)"
  by (simp_all add: cosineSimilarity_eq sumSquares_sum_list upt_4)

lemma ln_three_halves: "0 < ln (3 / 2 :: real) + 1"
proof -
  have "0 < ln (3 / 2 :: real)" by (rule ln_gt_zero) simp
  then show ?thesis by linarith
qed

lemma Do_fruit:
  assumes d: "tokenizer c [''apple orange'', ''banana grape'']
       = ([''apple'', ''banana'', ''grape'', ''orange''], [[''apple'', ''orange''], [''banana'', ''grape'']], None)"
    and q: "tokenizer c [''apple banana''] = (v, [[''apple'', ''banana'']], None)"
    and z: "vectorizer c = TfIdf NewTfIdfVectorizer"
  shows "Do c ''apple banana'' [''apple orange'', ''banana grape''] = Returns ([1 / 2, 1 / 2], None)"
  by (simp add: Do_def d q z Tf_fruit_docs Tf_fruit_query Idf_fruit
        TfIdf_fruit_docs [OF ln_three_halves] TfIdf_fruit_query [OF ln_three_halves]
        cosine_fruit upt_rec)

text \<open>
  Claim C1. The engine built from the tokenizer with a lower-casing normalization and
  from the default vectorizer (L2) answers the query \<^verbatim>\<open>"apple banana"\<close> on the corpus
  \<^verbatim>\<open>["apple orange", "banana grape"]\<close> with the scores \<open>[1/2, 1/2]\<close> and no error,
  exactly, in real arithmetic. It holds for every letter table that accepts
  \<^verbatim>\<open>a\<close> to \<^verbatim>\<open>z\<close> and rejects the space, and every normalization that leaves the
  four lower-case words as they are, as \<^verbatim>\<open>unicode.IsLetter\<close> and
  \<^verbatim>\<open>strings.ToLower\<close> do.
\<close>

theorem Do_apple_banana:
  assumes "\<And>r. 0x61 \<le> r \<Longrightarrow> r \<le> 0x7A \<Longrightarrow> isLetter r" and "\<not> isLetter 0x20"
    and "f ''apple'' = ''apple''" and "f ''banana'' = ''banana''"
    and "f ''orange'' = ''orange''" and "f ''grape'' = ''grape''"
  shows "Do (NewCosineSimilarity (Tokenize isLetter \<lparr>normalizeFunc = Some f\<rparr>) (TfIdf NewTfIdfVectorizer))
           ''apple banana'' [''apple orange'', ''banana grape'']
         = Returns ([1 / 2, 1 / 2], None)"
proof -
  note agree = agree_on_runes [of isLetter, OF assms(1,2)]
  have 1: "tokenize isLetter \<lparr>normalizeFunc = None\<rparr> ''apple orange'' = [''apple'', ''orange'']"
    using tokenize_cong [OF agree, of "''apple orange''"] by (simp add: runes_apple_orange tokens_apple_orange)
  have 2: "tokenize isLetter \<lparr>normalizeFunc = None\<rparr> ''banana grape'' = [''banana'', ''grape'']"
    using tokenize_cong [OF agree, of "''banana grape''"] by (simp add: runes_banana_grape tokens_banana_grape)
  have 3: "tokenize isLetter \<lparr>normalizeFunc = None\<rparr> ''apple banana'' = [''apple'', ''banana'']"
    using tokenize_cong [OF agree, of "''apple banana''"] by (simp add: runes_apple_banana tokens_apple_banana)
  have d: "Tokenize isLetter \<lparr>normalizeFunc = Some f\<rparr> [''apple orange'', ''banana grape'']
       = ([''apple'', ''banana'', ''grape'', ''orange''], [[''apple'', ''orange''], [''banana'', ''grape'']], None)"
    by (simp add: Tokenize_normalize 1 2 assms(3-6) vocabulary_fruit)
  have q: "Tokenize isLetter \<lparr>normalizeFunc = Some f\<rparr> [''apple banana'']
       = (vocabulary [[''apple'', ''banana'']], [[''apple'', ''banana'']], None)"
    by (simp add: Tokenize_normalize 3 assms(3-6))
  show ?thesis
    by (rule Do_fruit) (simp_all add: NewCosineSimilarity_def d q)
qed

theorem Do_apple_banana_witness:
  "Do (NewCosineSimilarity (Tokenize isLetterLatin1 \<lparr>normalizeFunc = Some toLowerASCII\<rparr>)
         (TfIdf NewTfIdfVectorizer))
      ''apple banana'' [''apple orange'', ''banana grape'']
   = Returns ([1 / 2, 1 / 2], None)"
  by (rule Do_apple_banana) (simp_all add: isLetterLatin1_def toLowerASCII_def)

section \<open>UTF-8 and the order of strings\<close>

text \<open>
  Go orders strings by their bytes. On encoded code points this is the order of the code
  points, and the range loop of the model reads the code points back.
\<close>

lemma byte_less: "a < 256 \<Longrightarrow> b < 256 \<Longrightarrow> (char_of (a::nat) < char_of (b::nat)) = (a < b)"
  by (simp add: less_char_def)

lemma byte_eq: "a < 256 \<Longrightarrow> b < 256 \<Longrightarrow> (char_of (a::nat) = char_of (b::nat)) = (a = b)"
  by (simp add: char_of_eq_iff take_bit_eq_mod)

lemma digits_less:
  fixes a b k :: nat
  assumes "a < b"
  shows "a div k < b div k \<or> (a div k = b div k \<and> a mod k < b mod k)"
proof -
  have "a div k \<le> b div k" using assms by (simp add: div_le_mono)
  moreover have "a mod k < b mod k" if "a div k = b div k"
  proof -
    have "k * (a div k) + a mod k < k * (b div k) + b mod k"
      using assms by (simp only: mult_div_mod_eq)
    with that have "k * (b div k) + a mod k < k * (b div k) + b mod k" by (simp only:)
    then show ?thesis by (simp only: add_less_cancel_left)
  qed
  ultimately show ?thesis by linarith
qed

lemma bytes_less_imp_chars_less:
  fixes bs bs' :: "nat list"
  assumes "length bs = length bs'" and "\<forall>b\<in>set bs. b < 256" and "\<forall>b\<in>set bs'. b < 256"
    and "bs < bs'"
  shows "map char_of bs @ t < (map char_of bs' @ t' :: string)"
  using assms
proof (induction bs bs' rule: list_induct2)
  case Nil
  then show ?case by simp
next
  case (Cons b bs b' bs')
  from Cons.prems have bb: "b < 256" "b' < 256" by simp_all
  from Cons.prems(3) have "b < b' \<or> (b = b' \<and> bs < bs')" by simp
  then show ?case
  proof
    assume "b < b'"
    then show ?thesis by (simp add: byte_less [OF bb])
  next
    assume "b = b' \<and> bs < bs'"
    with Cons.IH Cons.prems show ?thesis by simp
  qed
qed

lemma runeBytes_bound:
  assumes "r < 0x110000"
  shows "\<forall>b\<in>set (runeBytes r). b < 256"
proof -
  have m: "r mod 64 < 64" "r div 64 mod 64 < 64" "r div 4096 mod 64 < 64" by simp_all
  have "r < 0x800 \<Longrightarrow> r div 64 < 32" "r < 0x10000 \<Longrightarrow> r div 4096 < 16" "r div 262144 < 5"
    using assms by linarith+
  with m show ?thesis by (auto simp: runeBytes_def)
qed

lemma three_digits:
  fixes r r' :: nat
  assumes "r < r'"
  shows "r div 4096 < r' div 4096 \<or>
    (r div 4096 = r' div 4096 \<and>
      (r div 64 mod 64 < r' div 64 mod 64 \<or>
        (r div 64 mod 64 = r' div 64 mod 64 \<and> r mod 64 < r' mod 64)))"
proof -
  have e: "r div 64 div 64 = r div 4096" "r' div 64 div 64 = r' div 4096"
    by (simp_all add: div_mult2_eq [symmetric])
  from digits_less [OF assms, of 64]
  show ?thesis
  proof
    assume "r div 64 < r' div 64"
    from digits_less [OF this, of 64] show ?thesis by (simp only: e) blast
  next
    assume a: "r div 64 = r' div 64 \<and> r mod 64 < r' mod 64"
    then have "r div 64 div 64 = r' div 64 div 64" by simp
    then have "r div 4096 = r' div 4096" by (simp only: e)
    moreover from a have "r div 64 mod 64 = r' div 64 mod 64" by simp
    ultimately show ?thesis using a by blast
  qed
qed

lemma four_digits:
  fixes r r' :: nat
  assumes "r < r'"
  shows "r div 262144 < r' div 262144 \<or>
    (r div 262144 = r' div 262144 \<and>
      (r div 4096 mod 64 < r' div 4096 mod 64 \<or>
        (r div 4096 mod 64 = r' div 4096 mod 64 \<and>
          (r div 64 mod 64 < r' div 64 mod 64 \<or>
            (r div 64 mod 64 = r' div 64 mod 64 \<and> r mod 64 < r' mod 64)))))"
proof -
  have e: "r div 4096 div 64 = r div 262144" "r' div 4096 div 64 = r' div 262144"
    by (simp_all add: div_mult2_eq [symmetric])
  from three_digits [OF assms]
  show ?thesis
  proof
    assume "r div 4096 < r' div 4096"
    from digits_less [OF this, of 64] show ?thesis by (simp only: e) blast
  next
    assume a: "r div 4096 = r' div 4096 \<and>
      (r div 64 mod 64 < r' div 64 mod 64 \<or>
        (r div 64 mod 64 = r' div 64 mod 64 \<and> r mod 64 < r' mod 64))"
    then have "r div 4096 div 64 = r' div 4096 div 64" by simp
    then have "r div 262144 = r' div 262144" by (simp only: e)
    moreover from a have "r div 4096 mod 64 = r' div 4096 mod 64" by simp
    ultimately show ?thesis using a by blast
  qed
qed

lemma runeBytes_less_same_length:
  assumes "r < r'" and "length (runeBytes r) = length (runeBytes r')"
  shows "runeBytes r < runeBytes r'"
proof -
  consider (1) "r' < 0x80" | (2) "0x80 \<le> r" "r' < 0x800" | (3) "0x800 \<le> r" "r' < 0x10000"
    | (4) "0x10000 \<le> r"
    using assms by (auto simp: runeBytes_def split: if_splits)
  then show ?thesis
  proof cases
    case 1
    with assms(1) show ?thesis by (simp add: runeBytes_def)
  next
    case 2
    with assms(1) digits_less [OF assms(1), of 64] show ?thesis by (auto simp: runeBytes_def)
  next
    case 3
    with assms(1) three_digits [OF assms(1)] show ?thesis by (auto simp: runeBytes_def)
  next
    case 4
    with assms(1) four_digits [OF assms(1)] show ?thesis by (auto simp: runeBytes_def)
  qed
qed

lemma runeBytes_lead:
  assumes "r < r'" and "r' < 0x110000" and "length (runeBytes r) \<noteq> length (runeBytes r')"
  shows "\<exists>b bs b' bs'. runeBytes r = b # bs \<and> runeBytes r' = b' # bs' \<and> b < b' \<and> b' < 256"
proof -
  have d: "r < 0x800 \<Longrightarrow> r div 64 < 32" "r < 0x10000 \<Longrightarrow> r div 4096 < 16"
     "r' < 0x10000 \<Longrightarrow> r' div 4096 < 16" "r' div 262144 < 5"
    using assms(2) by linarith+
  consider (12) "r < 0x80" "0x80 \<le> r'" | (23) "0x80 \<le> r" "r < 0x800" "0x800 \<le> r'"
    | (34) "0x800 \<le> r" "r < 0x10000" "0x10000 \<le> r'"
    using assms by (auto simp: runeBytes_def split: if_splits)
  then show ?thesis
  proof cases
    case 12
    with d show ?thesis by (auto simp: runeBytes_def)
  next
    case 23
    with d show ?thesis by (auto simp: runeBytes_def)
  next
    case 34
    with d show ?thesis by (auto simp: runeBytes_def)
  qed
qed

lemma encodeRune_less:
  assumes "r < r'" and "r' < 0x110000"
  shows "encodeRune r @ t < encodeRune r' @ t'"
proof (cases "length (runeBytes r) = length (runeBytes r')")
  case True
  from assms have "r < 0x110000" by simp
  from bytes_less_imp_chars_less [OF True runeBytes_bound [OF this] runeBytes_bound [OF assms(2)]
      runeBytes_less_same_length [OF assms(1) True]]
  show ?thesis by (simp add: encodeRune_def)
next
  case False
  from runeBytes_lead [OF assms False]
  obtain b bs b' bs' where "runeBytes r = b # bs" "runeBytes r' = b' # bs'" "b < b'" "b' < 256"
    by blast
  then show ?thesis by (simp add: encodeRune_def byte_less)
qed

lemma encodeRune_not_Nil: "encodeRune r \<noteq> []"
  by (simp add: encodeRune_def runeBytes_def)

lemma append_less_cancel: "(p @ a < p @ b) = (a < (b :: 'a :: linorder list))"
  by (induction p) simp_all

lemma encodeString_Cons: "encodeString (r # rs) = encodeRune r @ encodeString rs"
  by (simp add: encodeString_def)

lemma encodeString_less_iff:
  assumes "\<forall>r\<in>set rs. r < 0x110000" and "\<forall>r\<in>set rs'. r < 0x110000"
  shows "(encodeString rs < encodeString rs') = (rs < rs')"
  using assms
proof (induction rs arbitrary: rs')
  case Nil
  show ?case
  proof (cases rs')
    case Nil
    then show ?thesis by (simp add: encodeString_def)
  next
    case (Cons r' rs1')
    obtain c cs where "encodeRune r' = c # cs" using encodeRune_not_Nil [of r'] by (cases "encodeRune r'") auto
    with Cons show ?thesis by (simp add: encodeString_def)
  qed
next
  case (Cons r rs1)
  show ?case
  proof (cases rs')
    case Nil
    then show ?thesis by (simp add: encodeString_def)
  next
    case c: (Cons r' rs1')
    from Cons.prems c have v: "r < 0x110000" "r' < 0x110000" by simp_all
    have e: "encodeString (r # rs1) = encodeRune r @ encodeString rs1"
      "encodeString (r' # rs1') = encodeRune r' @ encodeString rs1'"
      by (simp_all add: encodeString_def)
    consider (lt) "r < r'" | (eq) "r = r'" | (gt) "r' < r" by linarith
    then show ?thesis
    proof cases
      case lt
      from encodeRune_less [OF lt v(2)] lt c show ?thesis by (simp add: e)
    next
      case gt
      from encodeRune_less [OF gt v(1), of "encodeString rs1'" "encodeString rs1"]
      have "\<not> encodeRune r @ encodeString rs1 < encodeRune r' @ encodeString rs1'" by simp
      with gt c show ?thesis by (simp add: e)
    next
      case eq
      from Cons.IH [of rs1'] Cons.prems c
      have "(encodeString rs1 < encodeString rs1') = (rs1 < rs1')" by simp
      with eq c show ?thesis by (simp add: encodeString_Cons append_less_cancel)
    qed
  qed
qed

lemma encodeString_eq_iff:
  assumes "\<forall>r\<in>set rs. r < 0x110000" and "\<forall>r\<in>set rs'. r < 0x110000"
  shows "(encodeString rs = encodeString rs') = (rs = rs')"
proof
  assume e: "encodeString rs = encodeString rs'"
  show "rs = rs'"
  proof (rule ccontr)
    assume "rs \<noteq> rs'"
    then have "rs < rs' \<or> rs' < rs" by auto
    with encodeString_less_iff [OF assms] encodeString_less_iff [OF assms(2,1)] e
    show False by auto
  qed
qed simp

lemma encodeString_sorted:
  assumes "\<forall>rs\<in>set xs. \<forall>r\<in>set rs. r < 0x110000" and "sorted xs" and "distinct xs"
  shows "sorted (map encodeString xs) \<and> distinct (map encodeString xs)"
  using assms
proof (induction xs)
  case Nil
  show ?case by simp
next
  case (Cons x xs)
  have "encodeString x < encodeString y" if "y \<in> set xs" for y
  proof -
    from that Cons.prems have "x \<le> y" "x \<noteq> y" by auto
    then have "x < y" by simp
    with encodeString_less_iff [of x y] that Cons.prems(1) show ?thesis by simp
  qed
  then have "\<forall>y\<in>set xs. encodeString x \<le> encodeString y \<and> encodeString x \<noteq> encodeString y"
    by fastforce
  with Cons show ?case by auto
qed

lemma vocabulary_code_point_order:
  assumes "\<forall>doc\<in>set toks. \<forall>rs\<in>set doc. \<forall>r\<in>set rs. r < 0x110000"
  shows "vocabulary (map (map encodeString) toks)
     = map encodeString (sorted_list_of_set (set (concat toks)))"
proof -
  let ?xs = "sorted_list_of_set (set (concat toks))"
  have s: "set ?xs = set (concat toks)" "sorted ?xs" "distinct ?xs" by simp_all
  from assms s(1) have "\<forall>rs\<in>set ?xs. \<forall>r\<in>set rs. r < 0x110000" by auto
  from encodeString_sorted [OF this s(2,3)]
  have "sorted_list_of_set (set (map encodeString ?xs)) = map encodeString ?xs"
    by (simp only: sorted_list_of_set_sort_remdups distinct_remdups_id sorted_sort_id)
  moreover have "set (map encodeString ?xs) = set (concat (map (map encodeString) toks))"
    by (auto simp: s(1))
  ultimately show ?thesis by (simp add: vocabulary_eq)
qed

lemma of_char_byte: "b < 256 \<Longrightarrow> of_char (char_of (b::nat)) = b"
  by simp

lemma decode1:
  assumes "b0 < 0x80"
  shows "decodeRune (char_of b0 # rest) = (b0, 1)"
proof -
  have "of_char (char_of b0) = b0" using assms by (intro of_char_byte) simp
  then show ?thesis using assms by (simp del: of_char_of)
qed

lemma decode2:
  assumes "0xC2 \<le> b0" "b0 \<le> 0xDF" "0x80 \<le> b1" "b1 \<le> 0xBF"
  shows "decodeRune (char_of b0 # char_of b1 # rest) = ((b0 - 0xC0) * 64 + (b1 - 0x80), 2)"
proof -
  have "of_char (char_of b0) = b0" "of_char (char_of b1) = b1"
    using assms by (intro of_char_byte; simp)+
  then show ?thesis using assms by (simp add: continuation_def del: of_char_of)
qed

lemma decode3:
  assumes "0xE0 \<le> b0" "b0 \<le> 0xEF" "second_lo b0 \<le> b1" "b1 \<le> second_hi b0"
    "0x80 \<le> b2" "b2 \<le> 0xBF"
  shows "decodeRune (char_of b0 # char_of b1 # char_of b2 # rest)
     = ((b0 - 0xE0) * 4096 + (b1 - 0x80) * 64 + (b2 - 0x80), 3)"
proof -
  have "second_hi b0 \<le> 0xBF" by (simp add: second_hi_def)
  with assms have "b1 < 256" by linarith
  then have "of_char (char_of b0) = b0" "of_char (char_of b1) = b1" "of_char (char_of b2) = b2"
    using assms by (intro of_char_byte; simp)+
  then show ?thesis using assms by (simp add: continuation_def del: of_char_of)
qed

lemma decode4:
  assumes "0xF0 \<le> b0" "b0 \<le> 0xF4" "second_lo b0 \<le> b1" "b1 \<le> second_hi b0"
    "0x80 \<le> b2" "b2 \<le> 0xBF" "0x80 \<le> b3" "b3 \<le> 0xBF"
  shows "decodeRune (char_of b0 # char_of b1 # char_of b2 # char_of b3 # rest)
     = ((b0 - 0xF0) * 262144 + (b1 - 0x80) * 4096 + (b2 - 0x80) * 64 + (b3 - 0x80), 4)"
proof -
  have "second_hi b0 \<le> 0xBF" by (simp add: second_hi_def)
  with assms have "b1 < 256" by linarith
  then have "of_char (char_of b0) = b0" "of_char (char_of b1) = b1" "of_char (char_of b2) = b2"
     "of_char (char_of b3) = b3"
    using assms by (intro of_char_byte; simp)+
  then show ?thesis using assms by (simp add: continuation_def del: of_char_of)
qed

lemma decodeRune_encodeRune:
  assumes "scalarValue r"
  shows "decodeRune (encodeRune r @ rest) = (r, length (encodeRune r))"
proof -
  have m: "r mod 64 < 64" "r div 64 mod 64 < 64" "r div 4096 mod 64 < 64" by simp_all
  have e1: "64 * (r div 64) + r mod 64 = r" by (rule mult_div_mod_eq)
  have e2: "64 * (r div 64 div 64) + r div 64 mod 64 = r div 64" by (rule mult_div_mod_eq)
  have e3: "64 * (r div 4096 div 64) + r div 4096 mod 64 = r div 4096" by (rule mult_div_mod_eq)
  have d: "r div 64 div 64 = r div 4096" "r div 4096 div 64 = r div 262144"
    by (simp_all add: div_mult2_eq [symmetric])
  from assms have "r < 0x110000" by (auto simp: scalarValue_def)
  then consider (1) "r < 0x80" | (2) "0x80 \<le> r" "r < 0x800" | (3) "0x800 \<le> r" "r < 0x10000"
    | (4) "0x10000 \<le> r" "r < 0x110000"
    by linarith
  then show ?thesis
  proof cases
    case 1
    then show ?thesis by (simp add: encodeRune_def runeBytes_def decode1 del: decodeRune.simps)
  next
    case 2
    then have "0xC2 \<le> 0xC0 + r div 64" "0xC0 + r div 64 \<le> 0xDF" by linarith+
    from decode2 [OF this, of "0x80 + r mod 64" rest] m e1 2
    show ?thesis by (simp add: encodeRune_def runeBytes_def del: decodeRune.simps)
  next
    case 3
    then have b0: "0xE0 \<le> 0xE0 + r div 4096" "0xE0 + r div 4096 \<le> 0xEF" by linarith+
    have lo: "second_lo (0xE0 + r div 4096) \<le> 0x80 + r div 64 mod 64"
    proof (cases "r div 4096 = 0")
      case True
      with 3 e2 d have "32 \<le> r div 64 mod 64" by linarith
      with True show ?thesis by (simp add: second_lo_def)
    next
      case False
      with b0 show ?thesis by (simp add: second_lo_def)
    qed
    have hi: "0x80 + r div 64 mod 64 \<le> second_hi (0xE0 + r div 4096)"
    proof (cases "r div 4096 = 13")
      case True
      then have "r < 0xE000" by linarith
      with assms have "r < 0xD800" by (auto simp: scalarValue_def)
      with True e2 d have "r div 64 mod 64 < 32" by linarith
      with True show ?thesis by (simp add: second_hi_def)
    next
      case False
      with m b0 show ?thesis by (simp add: second_hi_def)
    qed
    have v: "r div 4096 * 4096 + r div 64 mod 64 * 64 + r mod 64 = r"
      using e1 e2 d by linarith
    from decode3 [OF b0 lo hi, of "0x80 + r mod 64" rest] m v 3
    show ?thesis by (simp add: encodeRune_def runeBytes_def del: decodeRune.simps)
  next
    case 4
    then have b0: "0xF0 \<le> 0xF0 + r div 262144" "0xF0 + r div 262144 \<le> 0xF4" by linarith+
    have lo: "second_lo (0xF0 + r div 262144) \<le> 0x80 + r div 4096 mod 64"
    proof (cases "r div 262144 = 0")
      case True
      with 4 e3 d have "16 \<le> r div 4096 mod 64" by linarith
      with True show ?thesis by (simp add: second_lo_def)
    next
      case False
      then show ?thesis by (simp add: second_lo_def)
    qed
    have hi: "0x80 + r div 4096 mod 64 \<le> second_hi (0xF0 + r div 262144)"
    proof (cases "r div 262144 = 4")
      case True
      with 4 e3 d have "r div 4096 mod 64 < 16" by linarith
      with True show ?thesis by (simp add: second_hi_def)
    next
      case False
      with m b0 show ?thesis by (simp add: second_hi_def)
    qed
    have v: "r div 262144 * 262144 + r div 4096 mod 64 * 4096 + r div 64 mod 64 * 64 + r mod 64 = r"
      using e1 e2 e3 d by linarith
    from decode4 [OF b0 lo hi, of "0x80 + r div 64 mod 64" "0x80 + r mod 64" rest] m v 4
    show ?thesis by (simp add: encodeRune_def runeBytes_def del: decodeRune.simps)
  qed
qed

lemma rangeString_encodeString:
  assumes "\<forall>r\<in>set rs. scalarValue r"
  shows "map snd (rangeString i (encodeString rs)) = rs"
  using assms
proof (induction rs arbitrary: i)
  case Nil
  show ?case by (simp add: encodeString_def)
next
  case (Cons r rs)
  obtain c cs where c: "encodeRune r = c # cs"
    using encodeRune_not_Nil [of r] by (cases "encodeRune r") auto
  from Cons.prems have "scalarValue r" by simp
  from decodeRune_encodeRune [OF this, of "encodeString rs"]
  have d: "decodeRune (c # cs @ encodeString rs) = (r, Suc (length cs))" by (simp add: c)
  have "rangeString i (encodeString (r # rs))
      = (i, r) # rangeString (i + Suc (length cs)) (encodeString rs)"
    by (simp add: encodeString_Cons c d del: decodeRune.simps)
  with Cons.IH [of "i + Suc (length cs)"] Cons.prems show ?case by simp
qed

text \<open>
  Claim C7. For every corpus the vocabulary that \<open>Tokenize\<close> returns has no duplicates,
  is sorted ascending, and holds exactly the tokens of the corpus; the result of
  \<open>vocabulary\<close> depends on the set of tokens only, not on the order in which they are
  met. The order is the order of Go strings, byte by byte; for tokens that encode code
  points it is the ascending order of the code points: the vocabulary of the encoded
  tokens is the encoding of the tokens sorted by code point. (Both tokenizer variants end
  in the same \<open>vocabulary\<close> function.)
\<close>

theorem vocabulary_sorted_distinct:
  "distinct (fst (Tokenize isLetter t documents)) \<and>
   sorted (fst (Tokenize isLetter t documents)) \<and>
   set (fst (Tokenize isLetter t documents)) = set (concat (fst (snd (Tokenize isLetter t documents)))) \<and>
   (set (concat tokens') = set (concat tokens) \<longrightarrow> vocabulary tokens' = vocabulary tokens) \<and>
   ((\<forall>doc\<in>set runes. \<forall>rs\<in>set doc. \<forall>r\<in>set rs. r < 0x110000) \<longrightarrow>
      vocabulary (map (map encodeString) runes)
        = map encodeString (sorted_list_of_set (set (concat runes))))"
proof (intro conjI impI)
  show "distinct (fst (Tokenize isLetter t documents))"
    by (simp add: Tokenize_def Let_def vocabulary_eq)
  show "sorted (fst (Tokenize isLetter t documents))"
    by (simp add: Tokenize_def Let_def vocabulary_eq)
  show "set (fst (Tokenize isLetter t documents))
      = set (concat (fst (snd (Tokenize isLetter t documents))))"
    by (simp add: Tokenize_def Let_def vocabulary_eq)
next
  assume "set (concat tokens') = set (concat tokens)"
  then show "vocabulary tokens' = vocabulary tokens" by (simp only: vocabulary_eq)
next
  assume "\<forall>doc\<in>set runes. \<forall>rs\<in>set doc. \<forall>r\<in>set rs. r < 0x110000"
  then show "vocabulary (map (map encodeString) runes)
        = map encodeString (sorted_list_of_set (set (concat runes)))"
    by (rule vocabulary_code_point_order)
qed

theorem vocabulary_sorted_distinct_witness:
  "vocabulary [[''bb''], [''aa'', ''bb'']] = vocabulary [[''aa'', ''bb'', ''aa'']] \<and>
   vocabulary (map (map encodeString) [[[0xE9, 0x61]], [[0x7A, 0x7A], [0xE9, 0x61]]])
     = map encodeString (sorted_list_of_set (set (concat [[[0xE9, 0x61]], [[0x7A, 0x7A], [0xE9, 0x61]]]))) \<and>
   map encodeString (sorted_list_of_set (set (concat [[[0xE9, 0x61]], [[0x7A, 0x7A], [0xE9, 0x61]]])))
     = [''zz'', [CHR 0xC3, CHR 0xA9, CHR ''a'']]"
proof -
  note T = vocabulary_sorted_distinct [THEN conjunct2, THEN conjunct2, THEN conjunct2]
  have 1: "set (concat [[''bb''], [''aa'', ''bb'']]) = set (concat [[''aa'', ''bb'', ''aa'']])" by auto
  have 2: "\<forall>doc\<in>set [[[0xE9, 0x61]], [[0x7A, 0x7A], [0xE9, 0x61 :: nat]]]. \<forall>rs\<in>set doc. \<forall>r\<in>set rs. r < 0x110000"
    by simp
  have 3: "map encodeString (sorted_list_of_set (set (concat [[[0xE9, 0x61]], [[0x7A, 0x7A], [0xE9, 0x61]]])))
     = [''zz'', [CHR 0xC3, CHR 0xA9, CHR ''a'']]"
    by code_simp
  show ?thesis
    using T [THEN conjunct1, THEN mp, OF 1] T [THEN conjunct2, THEN mp, OF 2] 3
    by (intro conjI)
qed

section \<open>The similarity and the normalizations on binary64\<close>


























end
